theory Spec2Isabelle
  imports Main
begin

section \<open>Python values, strings and dictionaries\<close>

text \<open>
  The detector of \<^verbatim>\<open>detector_SaraswathideviS.py\<close> works on records parsed from JSON: a
  dictionary from field names to scalar values. Values are modelled by the datatype
  \<open>pyval\<close> (None, booleans, integers and strings; floating point numbers and nested
  containers are left out). A Python string is a sequence of Unicode code points: a
  list of natural numbers, and \<open>ustr\<close> gives the code points of a literal of the source.
  Every operation of the source that can raise (indexing a string, a list or a
  dictionary) returns a value of \<open>py_error + 'a\<close>, with \<open>Inl\<close> for the exception.
\<close>

datatype py_error = IndexError | KeyError

type_synonym ustring = "nat list"

definition ustr :: "string \<Rightarrow> ustring" where
  "ustr s = map of_char s"

datatype pyval = VNone | VBool bool | VInt int | VStr ustring

type_synonym pydict = "(ustring \<times> pyval) list"

text \<open>Truthiness, as \<^verbatim>\<open>if not value\<close> tests it.\<close>

fun truthy :: "pyval \<Rightarrow> bool" where
  "truthy VNone = False"
| "truthy (VBool b) = b"
| "truthy (VInt i) = (i \<noteq> 0)"
| "truthy (VStr s) = (s \<noteq> [])"

definition ascii_digits :: ustring where
  "ascii_digits = ustr ''0123456789''"

definition ascii_uppercase :: ustring where
  "ascii_uppercase = ustr ''ABCDEFGHIJKLMNOPQRSTUVWXYZ''"

definition ascii_lowercase :: ustring where
  "ascii_lowercase = ustr ''abcdefghijklmnopqrstuvwxyz''"

text \<open>
  The code points that \<^verbatim>\<open>str.strip()\<close>, \<^verbatim>\<open>str.split()\<close> and \<^verbatim>\<open>str.isspace()\<close> treat
  as white space: the table of the interpreter, in full.
\<close>

definition whitespace :: "nat list" where
  "whitespace =
     [0x09, 0x0A, 0x0B, 0x0C, 0x0D, 0x1C, 0x1D, 0x1E, 0x1F, 0x20, 0x85, 0xA0, 0x1680,
      0x2000, 0x2001, 0x2002, 0x2003, 0x2004, 0x2005, 0x2006, 0x2007, 0x2008, 0x2009,
      0x200A, 0x2028, 0x2029, 0x202F, 0x205F, 0x3000]"

definition is_space :: "nat \<Rightarrow> bool" where
  "is_space c = (c \<in> set whitespace)"

text \<open>
  Which code points are letters and digits is decided by the Unicode character
  database of the interpreter, far too large to write out. It is a parameter \<open>U\<close> of
  the model: \<open>uc_alpha\<close> is \<^verbatim>\<open>str.isalpha\<close> on one character, \<open>uc_decimal\<close> is
  \<^verbatim>\<open>str.isdecimal\<close> (the class \<^verbatim>\<open>\d\<close> of the module \<^verbatim>\<open>re\<close>), \<open>uc_digit\<close> is
  \<^verbatim>\<open>str.isdigit\<close>, \<open>uc_numeric\<close> is \<^verbatim>\<open>str.isnumeric\<close>, and \<open>uc_lower\<close> is
  \<^verbatim>\<open>str.lower\<close> (on a whole string: the lower case of a capital sigma depends on its
  position). The patterns of the source are compiled without \<^verbatim>\<open>re.ASCII\<close>, so \<^verbatim>\<open>\w\<close>
  holds of every alphanumeric character and of the underscore.
\<close>

record ucd =
  uc_alpha :: "nat \<Rightarrow> bool"
  uc_decimal :: "nat \<Rightarrow> bool"
  uc_digit :: "nat \<Rightarrow> bool"
  uc_numeric :: "nat \<Rightarrow> bool"
  uc_lower :: "ustring \<Rightarrow> ustring"

definition is_word :: "ucd \<Rightarrow> nat \<Rightarrow> bool" where
  "is_word U c =
     (uc_alpha U c \<or> uc_decimal U c \<or> uc_digit U c \<or> uc_numeric U c \<or> c = 0x5F)"

text \<open>\<^verbatim>\<open>s.isdigit()\<close> and \<^verbatim>\<open>s.isalpha()\<close> are false on the empty string.\<close>

definition py_isdigit :: "ucd \<Rightarrow> ustring \<Rightarrow> bool" where
  "py_isdigit U s = (s \<noteq> [] \<and> list_all (uc_digit U) s)"

definition py_isalpha :: "ucd \<Rightarrow> ustring \<Rightarrow> bool" where
  "py_isalpha U s = (s \<noteq> [] \<and> list_all (uc_alpha U) s)"

text \<open>
  What the properties below assume of the database, all of it true of the database of
  the interpreter: below 128 the letters are the 52 ASCII letters and the decimal
  digits, the digits and the numeric characters are \<^verbatim>\<open>0\<close> to \<^verbatim>\<open>9\<close>; a decimal digit
  is a digit; a white space character is no digit; and the lower case of a string of
  ASCII characters is taken character by character.
\<close>

definition ascii_lower :: "nat \<Rightarrow> nat" where
  "ascii_lower c = (if 0x41 \<le> c \<and> c \<le> 0x5A then c + 0x20 else c)"

definition wf_ucd :: "ucd \<Rightarrow> bool" where
  "wf_ucd U =
     ((\<forall>c<128. uc_alpha U c = (c \<in> set (ascii_uppercase @ ascii_lowercase)))
      \<and> (\<forall>c<128. uc_decimal U c = (c \<in> set ascii_digits))
      \<and> (\<forall>c<128. uc_digit U c = (c \<in> set ascii_digits))
      \<and> (\<forall>c<128. uc_numeric U c = (c \<in> set ascii_digits))
      \<and> (\<forall>c. uc_decimal U c \<longrightarrow> uc_digit U c)
      \<and> (\<forall>c. is_space c \<longrightarrow> \<not> uc_digit U c)
      \<and> (\<forall>s. list_all (\<lambda>c. c < 128) s \<longrightarrow> uc_lower U s = map ascii_lower s))"

text \<open>
  A database that satisfies these: the entries of the interpreter's database for
  Latin-1 (U+0000 to U+00FF) and for the Arabic-Indic digits (U+0660 to U+0669),
  every other character being no letter and no digit.
\<close>

definition latin1_letter :: "nat \<Rightarrow> bool" where
  "latin1_letter c =
     (c = 0xAA \<or> c = 0xB5 \<or> c = 0xBA \<or> (0xC0 \<le> c \<and> c \<le> 0xD6)
      \<or> (0xD8 \<le> c \<and> c \<le> 0xF6) \<or> (0xF8 \<le> c \<and> c \<le> 0xFF))"

definition sample_lower :: "nat \<Rightarrow> nat" where
  "sample_lower c =
     (if (0x41 \<le> c \<and> c \<le> 0x5A) \<or> (0xC0 \<le> c \<and> c \<le> 0xDE \<and> c \<noteq> 0xD7)
      then c + 0x20 else c)"

definition sample_ucd :: ucd where
  "sample_ucd =
     \<lparr> uc_alpha = (\<lambda>c. c \<in> set (ascii_uppercase @ ascii_lowercase) \<or> latin1_letter c),
       uc_decimal = (\<lambda>c. c \<in> set ascii_digits \<or> (0x660 \<le> c \<and> c \<le> 0x669)),
       uc_digit = (\<lambda>c. c \<in> set ascii_digits \<or> (0x660 \<le> c \<and> c \<le> 0x669)
                        \<or> c \<in> set [0xB2, 0xB3, 0xB9]),
       uc_numeric = (\<lambda>c. c \<in> set ascii_digits \<or> (0x660 \<le> c \<and> c \<le> 0x669)
                          \<or> c \<in> set [0xB2, 0xB3, 0xB9, 0xBC, 0xBD, 0xBE]),
       uc_lower = map sample_lower \<rparr>"

text \<open>\<^verbatim>\<open>str(value)\<close> on the modelled values.\<close>

fun str_nat :: "nat \<Rightarrow> ustring" where
  "str_nat n =
     (if n < 10 then [ascii_digits ! n]
      else str_nat (n div 10) @ [ascii_digits ! (n mod 10)])"

definition str_int :: "int \<Rightarrow> ustring" where
  "str_int i = (if i < 0 then ustr ''-'' @ str_nat (nat (- i)) else str_nat (nat i))"

fun py_str :: "pyval \<Rightarrow> ustring" where
  "py_str VNone = ustr ''None''"
| "py_str (VBool b) = (if b then ustr ''True'' else ustr ''False'')"
| "py_str (VInt i) = str_int i"
| "py_str (VStr s) = s"

text \<open>\<^verbatim>\<open>s.strip()\<close>, \<^verbatim>\<open>s.split()\<close>, \<^verbatim>\<open>s.split(sep)\<close> for a one-character
  separator, \<^verbatim>\<open>s.lower()\<close>, \<^verbatim>\<open>sub in s\<close> and \<^verbatim>\<open>s.replace(c, "")\<close>.\<close>

definition py_strip :: "ustring \<Rightarrow> ustring" where
  "py_strip s = rev (dropWhile is_space (rev (dropWhile is_space s)))"

fun split_ws_aux :: "ustring \<Rightarrow> ustring \<Rightarrow> ustring list" where
  "split_ws_aux cur [] = (if cur = [] then [] else [cur])"
| "split_ws_aux cur (c # cs) =
     (if is_space c then (if cur = [] then split_ws_aux [] cs else cur # split_ws_aux [] cs)
      else split_ws_aux (cur @ [c]) cs)"

definition py_split :: "ustring \<Rightarrow> ustring list" where
  "py_split s = split_ws_aux [] s"

fun split_sep_aux :: "nat \<Rightarrow> ustring \<Rightarrow> ustring \<Rightarrow> ustring list" where
  "split_sep_aux sep cur [] = [cur]"
| "split_sep_aux sep cur (c # cs) =
     (if c = sep then cur # split_sep_aux sep [] cs else split_sep_aux sep (cur @ [c]) cs)"

definition py_split_sep :: "nat \<Rightarrow> ustring \<Rightarrow> ustring list" where
  "py_split_sep sep s = split_sep_aux sep [] s"

definition py_lower :: "ucd \<Rightarrow> ustring \<Rightarrow> ustring" where
  "py_lower U s = uc_lower U s"

definition starts_with :: "ustring \<Rightarrow> ustring \<Rightarrow> bool" where
  "starts_with sub s = (take (length sub) s = sub)"

fun py_contains :: "ustring \<Rightarrow> ustring \<Rightarrow> bool" where
  "py_contains sub [] = (sub = [])"
| "py_contains sub (c # cs) = (starts_with sub (c # cs) \<or> py_contains sub cs)"

definition py_remove :: "nat \<Rightarrow> ustring \<Rightarrow> ustring" where
  "py_remove c s = filter (\<lambda>x. x \<noteq> c) s"

text \<open>Indexing raises \<^verbatim>\<open>IndexError\<close> out of range; \<^verbatim>\<open>xs[-1]\<close> is the last element.\<close>

definition py_index :: "'a list \<Rightarrow> nat \<Rightarrow> py_error + 'a" where
  "py_index xs i = (if i < length xs then Inr (xs ! i) else Inl IndexError)"

definition py_index_last :: "'a list \<Rightarrow> py_error + 'a" where
  "py_index_last xs = (if xs = [] then Inl IndexError else Inr (last xs))"

text \<open>The slices \<^verbatim>\<open>s[:n]\<close>, \<^verbatim>\<open>s[-n:]\<close> and \<^verbatim>\<open>s[n:]\<close> never raise.\<close>

definition slice_to :: "nat \<Rightarrow> ustring \<Rightarrow> ustring" where
  "slice_to n s = take n s"

definition slice_last :: "nat \<Rightarrow> ustring \<Rightarrow> ustring" where
  "slice_last n s = drop (length s - n) s"

definition slice_from :: "nat \<Rightarrow> ustring \<Rightarrow> ustring" where
  "slice_from n s = drop n s"

text \<open>
  A dictionary keeps its keys in insertion order: an association list with distinct
  keys. \<^verbatim>\<open>k in d\<close> is \<open>dict_contains\<close>, \<^verbatim>\<open>d[k]\<close> is \<open>dict_index\<close> (it raises
  \<^verbatim>\<open>KeyError\<close> on a missing key), and \<^verbatim>\<open>d[k] = v\<close> is \<open>dict_set\<close>: an existing key
  keeps its place, a new key goes to the end.
\<close>

definition dict_contains :: "pydict \<Rightarrow> ustring \<Rightarrow> bool" where
  "dict_contains d k = (k \<in> set (map fst d))"

definition dict_index :: "pydict \<Rightarrow> ustring \<Rightarrow> py_error + pyval" where
  "dict_index d k = (case map_of d k of None \<Rightarrow> Inl KeyError | Some v \<Rightarrow> Inr v)"

fun dict_set :: "pydict \<Rightarrow> ustring \<Rightarrow> pyval \<Rightarrow> pydict" where
  "dict_set [] k v = [(k, v)]"
| "dict_set ((k', v') # d) k v = (if k' = k then (k, v) # d else (k', v') # dict_set d k v)"

section \<open>Regular expressions\<close>

text \<open>
  The patterns of \<^verbatim>\<open>PIIDetector.__init__\<close> use character classes, concatenation,
  alternation and the repetitions \<^verbatim>\<open>+\<close>, \<^verbatim>\<open>{n}\<close> and \<^verbatim>\<open>{n,}\<close>. A character class is
  a predicate on code points. The matcher works by derivatives; whether some match
  exists does not depend on the order in which Python's backtracking matcher tries the
  alternatives.
\<close>

datatype regex =
  Zero | One | Chars "nat \<Rightarrow> bool" | Seq regex regex | Alt regex regex | Star regex

fun nullable :: "regex \<Rightarrow> bool" where
  "nullable Zero = False"
| "nullable One = True"
| "nullable (Chars p) = False"
| "nullable (Seq r s) = (nullable r \<and> nullable s)"
| "nullable (Alt r s) = (nullable r \<or> nullable s)"
| "nullable (Star r) = True"

fun deriv :: "nat \<Rightarrow> regex \<Rightarrow> regex" where
  "deriv c Zero = Zero"
| "deriv c One = Zero"
| "deriv c (Chars p) = (if p c then One else Zero)"
| "deriv c (Seq r s) =
     (if nullable r then Alt (Seq (deriv c r) s) (deriv c s) else Seq (deriv c r) s)"
| "deriv c (Alt r s) = Alt (deriv c r) (deriv c s)"
| "deriv c (Star r) = Seq (deriv c r) (Star r)"

definition re_fullmatch :: "regex \<Rightarrow> ustring \<Rightarrow> bool" where
  "re_fullmatch r s = nullable (fold deriv s r)"

text \<open>\<^verbatim>\<open>r+\<close>, \<^verbatim>\<open>r{n}\<close> and \<^verbatim>\<open>r{n,}\<close>.\<close>

definition plus :: "regex \<Rightarrow> regex" where
  "plus r = Seq r (Star r)"

fun rep :: "nat \<Rightarrow> regex \<Rightarrow> regex" where
  "rep 0 r = One"
| "rep (Suc n) r = Seq r (rep n r)"

definition rep_min :: "nat \<Rightarrow> regex \<Rightarrow> regex" where
  "rep_min n r = Seq (rep n r) (Star r)"

text \<open>
  \<^verbatim>\<open>re.compile("^R$").match(s)\<close>: \<^verbatim>\<open>^\<close> is the start of the string, where
  \<^verbatim>\<open>match\<close> starts anyway, and \<^verbatim>\<open>$\<close> holds at the end of the string and also just
  before a line feed that ends the string.
\<close>

definition re_match_anchored :: "regex \<Rightarrow> ustring \<Rightarrow> bool" where
  "re_match_anchored r s =
     (re_fullmatch r s \<or> (s \<noteq> [] \<and> last s = 0x0A \<and> re_fullmatch r (butlast s)))"

text \<open>\<^verbatim>\<open>re.search(R, s)\<close> for a pattern without anchors: some substring matches.\<close>

fun re_match_prefix :: "regex \<Rightarrow> ustring \<Rightarrow> bool" where
  "re_match_prefix r [] = nullable r"
| "re_match_prefix r (c # cs) = (nullable r \<or> re_match_prefix (deriv c r) cs)"

fun re_search :: "regex \<Rightarrow> ustring \<Rightarrow> bool" where
  "re_search r [] = nullable r"
| "re_search r (c # cs) = (re_match_prefix r (c # cs) \<or> re_search r cs)"

text \<open>
  The compiled patterns of the detector (lines 10 to 16), without their anchors. A
  class written out between brackets is \<open>one_of\<close> its characters; \<^verbatim>\<open>\d\<close> is
  \<open>uc_decimal\<close> and \<^verbatim>\<open>\w\<close> is \<open>is_word\<close>.
\<close>

definition one_of :: "ustring \<Rightarrow> nat \<Rightarrow> bool" where
  "one_of cs c = (c \<in> set cs)"

definition phone_pattern :: "ucd \<Rightarrow> regex" where
  "phone_pattern U = rep 10 (Chars (uc_decimal U))"

definition aadhar_pattern :: "ucd \<Rightarrow> regex" where
  "aadhar_pattern U = rep 12 (Chars (uc_decimal U))"

definition passport_pattern :: "ucd \<Rightarrow> regex" where
  "passport_pattern U = Seq (Chars (one_of ascii_uppercase)) (rep 7 (Chars (uc_decimal U)))"

text \<open>\<^verbatim>\<open>^[\w.-]+@[\w.-]+$|^\d{10}@\w+$\<close>: the two alternatives.\<close>

definition upi_chars :: "ucd \<Rightarrow> nat \<Rightarrow> bool" where
  "upi_chars U c = (is_word U c \<or> one_of (ustr ''.-'') c)"

definition upi_pattern_a :: "ucd \<Rightarrow> regex" where
  "upi_pattern_a U =
     Seq (plus (Chars (upi_chars U)))
       (Seq (Chars (one_of (ustr ''@''))) (plus (Chars (upi_chars U))))"

definition upi_pattern_b :: "ucd \<Rightarrow> regex" where
  "upi_pattern_b U =
     Seq (rep 10 (Chars (uc_decimal U)))
       (Seq (Chars (one_of (ustr ''@''))) (plus (Chars (is_word U))))"

text \<open>\<^verbatim>\<open>^[A-Za-z0-9._%+-]+@[A-Za-z0-9.-]+\.[A-Z|a-z]{2,}$\<close>: the last class holds the
  letters and, as the source writes it, the character \<^verbatim>\<open>|\<close>.\<close>

definition email_local_chars :: ustring where
  "email_local_chars = ascii_uppercase @ ascii_lowercase @ ascii_digits @ ustr ''._%+-''"

definition email_domain_chars :: ustring where
  "email_domain_chars = ascii_uppercase @ ascii_lowercase @ ascii_digits @ ustr ''.-''"

definition email_tld_chars :: ustring where
  "email_tld_chars = ascii_uppercase @ ustr ''|'' @ ascii_lowercase"

definition email_pattern :: regex where
  "email_pattern =
     Seq (plus (Chars (one_of email_local_chars)))
       (Seq (Chars (one_of (ustr ''@'')))
         (Seq (plus (Chars (one_of email_domain_chars)))
           (Seq (Chars (one_of (ustr ''.''))) (rep_min 2 (Chars (one_of email_tld_chars))))))"

text \<open>
  The language of a regular expression, as a set of strings: the reference the matcher
  is proved against.
\<close>

definition conc :: "ustring set \<Rightarrow> ustring set \<Rightarrow> ustring set" where
  "conc A B = {xs @ ys | xs ys. xs \<in> A \<and> ys \<in> B}"

inductive_set star :: "ustring set \<Rightarrow> ustring set" for A :: "ustring set" where
  star_Nil: "[] \<in> star A"
| star_app: "xs \<in> A \<Longrightarrow> ys \<in> star A \<Longrightarrow> xs @ ys \<in> star A"

fun lang :: "regex \<Rightarrow> ustring set" where
  "lang Zero = {}"
| "lang One = {[]}"
| "lang (Chars p) = {[c] | c. p c}"
| "lang (Seq r s) = conc (lang r) (lang s)"
| "lang (Alt r s) = lang r \<union> lang s"
| "lang (Star r) = star (lang r)"

section \<open>The detector\<close>

subsection \<open>Standalone PII (lines 18 to 31)\<close>

definition is_standalone_pii :: "ucd \<Rightarrow> ustring \<Rightarrow> pyval \<Rightarrow> bool" where
  "is_standalone_pii U key v =
     (if \<not> truthy v then False
      else let value_str = py_strip (py_str v) in
        if key \<in> set [ustr ''phone'', ustr ''contact''] then
          re_match_anchored (phone_pattern U) value_str
        else if key = ustr ''aadhar'' then re_match_anchored (aadhar_pattern U) value_str
        else if key = ustr ''passport'' then re_match_anchored (passport_pattern U) value_str
        else if key = ustr ''upi_id'' then
          re_match_anchored (upi_pattern_a U) value_str
          \<or> re_match_anchored (upi_pattern_b U) value_str
        else False)"

subsection \<open>Contextual heuristics (lines 33 to 66)\<close>

text \<open>Both start with \<^verbatim>\<open>isinstance(value, str)\<close>, so they take any value.\<close>

definition name_part_ok :: "ucd \<Rightarrow> ustring \<Rightarrow> bool" where
  "name_part_ok U part = py_isalpha U (py_remove 0x27 (py_remove 0x2D part))"

fun is_full_name :: "ucd \<Rightarrow> pyval \<Rightarrow> bool" where
  "is_full_name U (VStr s) =
     (let parts = py_split (py_strip s) in
      if 2 \<le> length parts then list_all (name_part_ok U) parts else False)"
| "is_full_name U _ = False"

text \<open>
  \<^verbatim>\<open>\b\<close> holds between a word character and a character that is none, or the start
  or the end of the string. \<open>pincode_at U pre post\<close> says that \<^verbatim>\<open>\b\d{6}\b\<close>
  matches where the string \<open>pre @ post\<close> is cut, and \<open>has_pincode\<close> is
  \<^verbatim>\<open>re.search(r"\b\d{6}\b", value)\<close>: every position is tried.
\<close>

definition word_boundary :: "ucd \<Rightarrow> ustring \<Rightarrow> ustring \<Rightarrow> bool" where
  "word_boundary U pre post =
     ((pre \<noteq> [] \<and> is_word U (last pre)) \<noteq> (post \<noteq> [] \<and> is_word U (hd post)))"

definition pincode_at :: "ucd \<Rightarrow> ustring \<Rightarrow> ustring \<Rightarrow> bool" where
  "pincode_at U pre post =
     (word_boundary U pre post \<and> 6 \<le> length post \<and> list_all (uc_decimal U) (take 6 post)
      \<and> word_boundary U (pre @ take 6 post) (drop 6 post))"

definition has_pincode :: "ucd \<Rightarrow> ustring \<Rightarrow> bool" where
  "has_pincode U s = list_ex (\<lambda>i. pincode_at U (take i s) (drop i s)) [0..<Suc (length s)]"

definition address_keywords :: "ustring list" where
  "address_keywords =
     [ustr ''road'', ustr ''street'', ustr ''lane'', ustr ''avenue'', ustr ''nagar'',
      ustr ''colony'', ustr ''park'']"

definition has_number :: "ucd \<Rightarrow> ustring \<Rightarrow> bool" where
  "has_number U s = re_search (plus (Chars (uc_decimal U))) s"

definition has_comma :: "ustring \<Rightarrow> bool" where
  "has_comma s = (0x2C \<in> set s)"

definition word_count :: "ustring \<Rightarrow> bool" where
  "word_count s = (5 \<le> length (py_split s))"

definition has_keyword :: "ucd \<Rightarrow> ustring \<Rightarrow> bool" where
  "has_keyword U s = list_ex (\<lambda>keyword. py_contains keyword (py_lower U s)) address_keywords"

fun is_physical_address :: "ucd \<Rightarrow> pyval \<Rightarrow> bool" where
  "is_physical_address U (VStr s) =
     ((has_number U s \<and> has_comma s \<and> word_count s) \<or> (has_pincode U s \<and> has_keyword U s))"
| "is_physical_address U _ = False"

subsection \<open>Combinatorial detection (lines 68 to 90)\<close>

definition py_bind :: "py_error + 'a \<Rightarrow> ('a \<Rightarrow> py_error + 'b) \<Rightarrow> py_error + 'b" where
  "py_bind m f = (case m of Inl e \<Rightarrow> Inl e | Inr x \<Rightarrow> f x)"

text \<open>\<^verbatim>\<open>k in data and p(data[k])\<close>: the lookup runs only when the key is there.\<close>

definition in_and :: "pydict \<Rightarrow> ustring \<Rightarrow> (pyval \<Rightarrow> bool) \<Rightarrow> py_error + bool" where
  "in_and data k p =
     (if dict_contains data k then py_bind (dict_index data k) (\<lambda>v. Inr (p v)) else Inr False)"

text \<open>\<^verbatim>\<open>a or b\<close>: \<open>b\<close> is evaluated only when \<open>a\<close> is false.\<close>

definition py_or :: "py_error + bool \<Rightarrow> py_error + bool \<Rightarrow> py_error + bool" where
  "py_or a b = py_bind a (\<lambda>x. if x then Inr True else b)"

text \<open>Lines 83 to 87: whether a \<^verbatim>\<open>device_id\<close> or \<^verbatim>\<open>ip_address\<close> field counts.\<close>

definition user_context :: "ucd \<Rightarrow> pydict \<Rightarrow> py_error + bool" where
  "user_context U data =
     py_bind (py_or (in_and data (ustr ''name'') truthy) (in_and data (ustr ''email'') truthy))
       (\<lambda>any_context.
          if any_context then
            py_or (in_and data (ustr ''name'') (\<lambda>v. is_full_name U (VStr (py_str v))))
                  (in_and data (ustr ''email'')
                     (\<lambda>v. re_match_anchored email_pattern (py_str v)))
          else Inr False)"

fun detect_loop ::
  "ucd \<Rightarrow> pydict \<Rightarrow> (ustring \<times> pyval) list \<Rightarrow> ustring list \<Rightarrow> py_error + ustring list" where
  "detect_loop U data [] found_pii = Inr found_pii"
| "detect_loop U data ((key, v) # items) found_pii =
     (if \<not> truthy v then detect_loop U data items found_pii
      else let value_str = py_strip (py_str v) in
        if key = ustr ''name'' \<and> is_full_name U (VStr value_str) then
          detect_loop U data items (found_pii @ [ustr ''name''])
        else if key = ustr ''email'' \<and> re_match_anchored email_pattern value_str then
          detect_loop U data items (found_pii @ [ustr ''email''])
        else if key = ustr ''address'' \<and> is_physical_address U (VStr value_str) then
          detect_loop U data items (found_pii @ [ustr ''address''])
        else if key \<in> set [ustr ''device_id'', ustr ''ip_address''] \<and> truthy v then
          py_bind (user_context U data)
            (\<lambda>linked. detect_loop U data items (if linked then found_pii @ [key] else found_pii))
        else detect_loop U data items found_pii)"

definition detect_combinatorial_pii :: "ucd \<Rightarrow> pydict \<Rightarrow> py_error + (bool \<times> ustring list)" where
  "detect_combinatorial_pii U data =
     py_bind (detect_loop U data data [])
       (\<lambda>found_pii. Inr (2 \<le> length found_pii, found_pii))"

subsection \<open>Masking (lines 92 to 145)\<close>

text \<open>
  \<^verbatim>\<open>mask_value\<close> is a chain of \<^verbatim>\<open>if\<close> blocks; each either returns or falls through
  to the next one. A block is a function to an option: \<open>None\<close> falls through,
  \<open>Some r\<close> returns \<open>r\<close> (a string, or the exception an index raised).
\<close>

definition generic_mask :: ustring where
  "generic_mask = ustr ''[REDACTED_PII]''"

definition mask_phone :: "ucd \<Rightarrow> ustring \<Rightarrow> ustring \<Rightarrow> (py_error + ustring) option" where
  "mask_phone U key value_str =
     (if key \<in> set [ustr ''phone'', ustr ''contact'']
         \<and> length value_str = 10 \<and> py_isdigit U value_str
      then Some (Inr (slice_to 2 value_str @ ustr ''XXXXXX'' @ slice_last 2 value_str))
      else None)"

definition mask_aadhar :: "ucd \<Rightarrow> ustring \<Rightarrow> ustring \<Rightarrow> (py_error + ustring) option" where
  "mask_aadhar U key value_str =
     (if key = ustr ''aadhar'' \<and> length value_str = 12 \<and> py_isdigit U value_str
      then Some (Inr (slice_to 4 value_str @ ustr ''XXXX'' @ slice_last 4 value_str))
      else None)"

definition mask_email :: "ustring \<Rightarrow> ustring \<Rightarrow> (py_error + ustring) option" where
  "mask_email key value_str =
     (if key = ustr ''email'' \<and> 0x40 \<in> set value_str then
        let parts = py_split_sep 0x40 value_str in
        if length parts = 2 then
          Some (py_bind (py_index parts 0) (\<lambda>local_part.
                  let masked_local =
                        (if 2 < length local_part then slice_to 2 local_part @ ustr ''XXX''
                         else ustr ''XXX'')
                  in py_bind (py_index parts 1) (\<lambda>domain_part.
                       Inr (masked_local @ ustr ''@'' @ domain_part))))
        else None
      else None)"

definition mask_initial :: "ustring \<Rightarrow> ustring \<Rightarrow> py_error + ustring" where
  "mask_initial part xs =
     (if part \<noteq> [] then py_bind (py_index part 0) (\<lambda>c. Inr (c # xs)) else Inr xs)"

definition mask_name :: "ustring \<Rightarrow> ustring \<Rightarrow> (py_error + ustring) option" where
  "mask_name key value_str =
     (if key = ustr ''name'' then
        let parts = py_split value_str in
        if 2 \<le> length parts then
          Some (py_bind (py_index parts 0) (\<lambda>first.
                py_bind (py_index_last parts) (\<lambda>last.
                py_bind (mask_initial first (ustr ''XXX'')) (\<lambda>masked_first.
                py_bind (mask_initial last (ustr ''XXXX'')) (\<lambda>masked_last.
                  Inr (masked_first @ ustr '' '' @ masked_last))))))
        else None
      else None)"

definition mask_address :: "ustring \<Rightarrow> ustring \<Rightarrow> (py_error + ustring) option" where
  "mask_address key value_str =
     (if key = ustr ''address'' \<and> 15 < length value_str
      then Some (Inr (slice_to 10 value_str @ ustr ''... [REDACTED]''))
      else None)"

definition mask_upi :: "ustring \<Rightarrow> ustring \<Rightarrow> (py_error + ustring) option" where
  "mask_upi key value_str =
     (if key = ustr ''upi_id'' \<and> 0x40 \<in> set value_str then
        let parts = py_split_sep 0x40 value_str in
        if length parts = 2 then
          Some (py_bind (py_index parts 0) (\<lambda>user_part.
                  let masked_user =
                        (if 3 < length user_part then slice_to 3 user_part @ ustr ''XXX''
                         else ustr ''XXX'')
                  in py_bind (py_index parts 1) (\<lambda>domain_part.
                       Inr (masked_user @ ustr ''@'' @ domain_part))))
        else None
      else None)"

text \<open>Lines 137 to 143: the test indexes the string, after the test of its length.\<close>

definition passport_shape :: "ucd \<Rightarrow> ustring \<Rightarrow> py_error + bool" where
  "passport_shape U value_str =
     (if length value_str = 8 then
        py_bind (py_index value_str 0)
          (\<lambda>c. Inr (py_isalpha U [c] \<and> py_isdigit U (slice_from 1 value_str)))
      else Inr False)"

definition mask_passport :: "ucd \<Rightarrow> ustring \<Rightarrow> ustring \<Rightarrow> (py_error + ustring) option" where
  "mask_passport U key value_str =
     (if key = ustr ''passport'' then
        (case passport_shape U value_str of
           Inl e \<Rightarrow> Some (Inl e)
         | Inr ok \<Rightarrow>
             if ok then
               Some (py_bind (py_index value_str 0)
                       (\<lambda>c. Inr (c # ustr ''XXX'' @ slice_last 4 value_str)))
             else None)
      else None)"

fun first_return :: "'a option list \<Rightarrow> 'a \<Rightarrow> 'a" where
  "first_return [] d = d"
| "first_return (None # bs) d = first_return bs d"
| "first_return (Some r # bs) d = r"

definition mask_value :: "ucd \<Rightarrow> ustring \<Rightarrow> ustring \<Rightarrow> py_error + ustring" where
  "mask_value U key v =
     (if v = [] then Inr v
      else let value_str = py_strip v in
        first_return
          [mask_phone U key value_str, mask_aadhar U key value_str, mask_email key value_str,
           mask_name key value_str, mask_address key value_str, mask_upi key value_str,
           mask_passport U key value_str]
          (Inr generic_mask))"

subsection \<open>The record processor (lines 147 to 168)\<close>

fun standalone_loop ::
  "ucd \<Rightarrow> (ustring \<times> pyval) list \<Rightarrow> pydict \<Rightarrow> bool \<Rightarrow> py_error + (pydict \<times> bool)" where
  "standalone_loop U [] redacted_data is_pii = Inr (redacted_data, is_pii)"
| "standalone_loop U ((key, v) # items) redacted_data is_pii =
     (if truthy v \<and> is_standalone_pii U key v then
        py_bind (mask_value U key (py_str v))
          (\<lambda>m. standalone_loop U items (dict_set redacted_data key (VStr m)) True)
      else standalone_loop U items (dict_set redacted_data key v) is_pii)"

fun mask_found :: "ucd \<Rightarrow> pydict \<Rightarrow> ustring list \<Rightarrow> pydict \<Rightarrow> py_error + pydict" where
  "mask_found U record [] redacted_data = Inr redacted_data"
| "mask_found U record (field # found_fields) redacted_data =
     py_bind (in_and record field truthy)
       (\<lambda>present.
          if present then
            py_bind (dict_index record field) (\<lambda>v.
            py_bind (mask_value U field (py_str v)) (\<lambda>m.
              mask_found U record found_fields (dict_set redacted_data field (VStr m))))
          else mask_found U record found_fields redacted_data)"

definition process_record :: "ucd \<Rightarrow> pydict \<Rightarrow> py_error + (pydict \<times> bool)" where
  "process_record U record =
     py_bind (standalone_loop U record [] False)
       (\<lambda>(redacted_data, is_pii).
          if \<not> is_pii then
            py_bind (detect_combinatorial_pii U record)
              (\<lambda>(has_combinatorial, found_fields).
                 if has_combinatorial then
                   py_bind (mask_found U record found_fields redacted_data)
                     (\<lambda>redacted_data'. Inr (redacted_data', True))
                 else Inr (redacted_data, is_pii))
          else Inr (redacted_data, is_pii))"

section \<open>What the loops compute\<close>

text \<open>
  Closed forms of the three loops, used to state and prove the properties below:
  \<open>masked\<close> is the value a masked field holds, \<open>standalone_pass\<close> the dictionary
  the first loop of \<^verbatim>\<open>process_record\<close> builds, \<open>has_standalone\<close> whether that loop
  masked a field, \<open>linked\<close> the test of lines 84 to 87, \<open>qualifies\<close> the test under
  which \<^verbatim>\<open>detect_combinatorial_pii\<close> appends a field and \<open>found_fields\<close> the list it
  returns. Each is proved equal to what the model of the source computes.
  \<open>pii_fields\<close> are the field names the detector knows.
\<close>

definition masked :: "ucd \<Rightarrow> ustring \<Rightarrow> pyval \<Rightarrow> pyval" where
  "masked U k v = (case mask_value U k (py_str v) of Inr m \<Rightarrow> VStr m | Inl e \<Rightarrow> v)"

definition standalone_pass :: "ucd \<Rightarrow> pydict \<Rightarrow> pydict" where
  "standalone_pass U items =
     map (\<lambda>(k, v). (k, if truthy v \<and> is_standalone_pii U k v then masked U k v else v)) items"

definition linked :: "ucd \<Rightarrow> pydict \<Rightarrow> bool" where
  "linked U data =
     ((case map_of data (ustr ''name'') of
         Some v \<Rightarrow> is_full_name U (VStr (py_str v)) | None \<Rightarrow> False)
      \<or> (case map_of data (ustr ''email'') of
            Some v \<Rightarrow> re_match_anchored email_pattern (py_str v) | None \<Rightarrow> False))"

definition qualifies :: "ucd \<Rightarrow> pydict \<Rightarrow> ustring \<times> pyval \<Rightarrow> bool" where
  "qualifies U data = (\<lambda>(k, v).
     truthy v \<and>
     ((k = ustr ''name'' \<and> is_full_name U (VStr (py_strip (py_str v))))
      \<or> (k = ustr ''email'' \<and> re_match_anchored email_pattern (py_strip (py_str v)))
      \<or> (k = ustr ''address'' \<and> is_physical_address U (VStr (py_strip (py_str v))))
      \<or> ((k = ustr ''device_id'' \<or> k = ustr ''ip_address'') \<and> linked U data)))"

definition has_standalone :: "ucd \<Rightarrow> pydict \<Rightarrow> bool" where
  "has_standalone U record = list_ex (\<lambda>(k, v). truthy v \<and> is_standalone_pii U k v) record"

definition found_fields :: "ucd \<Rightarrow> pydict \<Rightarrow> ustring list" where
  "found_fields U record = map fst (filter (qualifies U record) record)"

definition pii_fields :: "ustring list" where
  "pii_fields =
     [ustr ''phone'', ustr ''contact'', ustr ''aadhar'', ustr ''passport'', ustr ''upi_id'',
      ustr ''name'', ustr ''email'', ustr ''address'', ustr ''device_id'', ustr ''ip_address'']"

section \<open>Properties\<close>

subsection \<open>The matcher decides the language\<close>

lemma in_conc: "s \<in> conc A B \<longleftrightarrow> (\<exists>u v. s = u @ v \<and> u \<in> A \<and> v \<in> B)"
  by (auto simp: conc_def)

lemma Nil_in_conc: "[] \<in> conc A B \<longleftrightarrow> [] \<in> A \<and> [] \<in> B"
  by (auto simp: conc_def)

lemma Cons_in_conc:
  "c # s \<in> conc A B \<longleftrightarrow>
     ([] \<in> A \<and> c # s \<in> B) \<or> (\<exists>u v. s = u @ v \<and> c # u \<in> A \<and> v \<in> B)"
  by (auto simp: conc_def Cons_eq_append_conv)

lemma Cons_in_conc_Chars:
  "c # s \<in> conc {[x] | x. p x} B \<longleftrightarrow> p c \<and> s \<in> B"
  by (auto simp: Cons_in_conc)

lemma star_Cons_split:
  assumes "w \<in> star A" "w = c # s"
  shows "\<exists>u v. s = u @ v \<and> c # u \<in> A \<and> v \<in> star A"
  using assms
proof (induction arbitrary: s rule: star.induct)
  case star_Nil
  then show ?case by simp
next
  case (star_app xs ys)
  show ?case
  proof (cases xs)
    case Nil
    with star_app show ?thesis by simp
  next
    case (Cons x xs')
    with star_app.prems have "x = c" "s = xs' @ ys" by simp_all
    with Cons star_app.hyps show ?thesis by blast
  qed
qed

lemma Cons_in_star:
  "c # s \<in> star A \<longleftrightarrow> (\<exists>u v. s = u @ v \<and> c # u \<in> A \<and> v \<in> star A)"
proof
  assume "c # s \<in> star A"
  then show "\<exists>u v. s = u @ v \<and> c # u \<in> A \<and> v \<in> star A"
    using star_Cons_split by blast
next
  assume "\<exists>u v. s = u @ v \<and> c # u \<in> A \<and> v \<in> star A"
  then obtain u v where "s = u @ v" "c # u \<in> A" "v \<in> star A" by blast
  then show "c # s \<in> star A"
    using star_app [of "c # u" A v] by simp
qed

lemma nullable_iff: "nullable r \<longleftrightarrow> [] \<in> lang r"
  by (induction r) (auto simp: Nil_in_conc intro: star_Nil)

lemma lang_deriv: "s \<in> lang (deriv c r) \<longleftrightarrow> c # s \<in> lang r"
proof (induction r arbitrary: s)
  case (Seq r1 r2)
  have "s \<in> lang (deriv c (Seq r1 r2)) \<longleftrightarrow>
          ([] \<in> lang r1 \<and> c # s \<in> lang r2)
          \<or> (\<exists>u v. s = u @ v \<and> c # u \<in> lang r1 \<and> v \<in> lang r2)"
    by (auto simp: in_conc Seq nullable_iff)
  also have "\<dots> \<longleftrightarrow> c # s \<in> lang (Seq r1 r2)"
    by (simp add: Cons_in_conc)
  finally show ?case .
next
  case (Star r)
  have "s \<in> lang (deriv c (Star r)) \<longleftrightarrow>
          (\<exists>u v. s = u @ v \<and> c # u \<in> lang r \<and> v \<in> star (lang r))"
    by (auto simp: in_conc Star)
  also have "\<dots> \<longleftrightarrow> c # s \<in> lang (Star r)"
    by (simp add: Cons_in_star)
  finally show ?case .
qed auto

lemma re_fullmatch_iff: "re_fullmatch r s \<longleftrightarrow> s \<in> lang r"
  unfolding re_fullmatch_def
  by (induction s arbitrary: r) (simp_all add: nullable_iff lang_deriv)

lemma lang_rep_Chars: "lang (rep n (Chars p)) = {s. length s = n \<and> list_all p s}"
proof (induction n)
  case 0
  then show ?case by auto
next
  case (Suc n)
  show ?case
  proof (rule set_eqI)
    fix s
    show "s \<in> lang (rep (Suc n) (Chars p)) \<longleftrightarrow> s \<in> {s. length s = Suc n \<and> list_all p s}"
      by (cases s) (auto simp: Suc Nil_in_conc Cons_in_conc_Chars)
  qed
qed

lemma star_Chars: "star {[c] | c. p c} = {s. list_all p s}"
proof (rule set_eqI)
  fix s
  show "s \<in> star {[c] | c. p c} \<longleftrightarrow> s \<in> {s. list_all p s}"
  proof (induction s)
    case Nil
    then show ?case by (simp add: star_Nil)
  next
    case (Cons a s)
    then show ?case by (auto simp: Cons_in_star)
  qed
qed

lemma lang_plus_Chars: "lang (plus (Chars p)) = {s. s \<noteq> [] \<and> list_all p s}"
proof (rule set_eqI)
  fix s
  show "s \<in> lang (plus (Chars p)) \<longleftrightarrow> s \<in> {s. s \<noteq> [] \<and> list_all p s}"
    by (cases s) (auto simp: plus_def Nil_in_conc Cons_in_conc_Chars star_Chars)
qed

lemma lang_rep_min_Chars:
  "lang (rep_min n (Chars p)) = {s. n \<le> length s \<and> list_all p s}"
proof (rule set_eqI)
  fix s
  show "s \<in> lang (rep_min n (Chars p)) \<longleftrightarrow> s \<in> {s. n \<le> length s \<and> list_all p s}"
  proof
    assume "s \<in> lang (rep_min n (Chars p))"
    then show "s \<in> {s. n \<le> length s \<and> list_all p s}"
      by (auto simp: rep_min_def conc_def lang_rep_Chars star_Chars)
  next
    assume a: "s \<in> {s. n \<le> length s \<and> list_all p s}"
    then have "s = take n s @ drop n s" "length (take n s) = n"
      "list_all p (take n s)" "list_all p (drop n s)"
      by (auto simp: list_all_iff dest: in_set_takeD in_set_dropD)
    then show "s \<in> lang (rep_min n (Chars p))"
      unfolding rep_min_def lang.simps conc_def lang_rep_Chars star_Chars by blast
  qed
qed

subsection \<open>Literals and the character database\<close>

lemma ustr_eq_iff: "ustr a = ustr b \<longleftrightarrow> a = b"
  unfolding ustr_def by (rule inj_map_eq_map [OF inj_of_char])

lemma ustr_app: "ustr (a @ b) = ustr a @ ustr b"
  by (simp add: ustr_def)

lemma length_ustr: "length (ustr s) = length s"
  by (simp add: ustr_def)

lemma wf_sample_ucd: "wf_ucd sample_ucd"
  by (auto simp: wf_ucd_def sample_ucd_def latin1_letter_def sample_lower_def ascii_lower_def
      ascii_digits_def ascii_uppercase_def ascii_lowercase_def ustr_def is_space_def
      whitespace_def list_all_iff)

lemma wf_decimal_digit: "wf_ucd U \<Longrightarrow> uc_decimal U c \<Longrightarrow> uc_digit U c"
  by (simp add: wf_ucd_def)

lemma wf_digit_not_space: "wf_ucd U \<Longrightarrow> uc_digit U c \<Longrightarrow> \<not> is_space c"
  by (auto simp: wf_ucd_def)

lemma wf_alpha_ascii:
  "wf_ucd U \<Longrightarrow> c < 128 \<Longrightarrow> uc_alpha U c = (c \<in> set (ascii_uppercase @ ascii_lowercase))"
  by (simp add: wf_ucd_def)

lemma wf_decimal_ascii: "wf_ucd U \<Longrightarrow> c < 128 \<Longrightarrow> uc_decimal U c = (c \<in> set ascii_digits)"
  by (simp add: wf_ucd_def)

lemma wf_digit_ascii: "wf_ucd U \<Longrightarrow> c < 128 \<Longrightarrow> uc_digit U c = (c \<in> set ascii_digits)"
  by (simp add: wf_ucd_def)

lemma wf_numeric_ascii: "wf_ucd U \<Longrightarrow> c < 128 \<Longrightarrow> uc_numeric U c = (c \<in> set ascii_digits)"
  by (simp add: wf_ucd_def)

lemma wf_lower_ascii:
  "wf_ucd U \<Longrightarrow> list_all (\<lambda>c. c < 128) s \<Longrightarrow> uc_lower U s = map ascii_lower s"
  by (simp add: wf_ucd_def)

lemma truthy_VStr_iff: "truthy (VStr s) \<longleftrightarrow> s \<noteq> []"
  by simp

subsection \<open>Strip\<close>

lemma py_strip_Nil: "py_strip [] = []"
  by (simp add: py_strip_def)

lemma py_strip_id:
  assumes "s \<noteq> []" "\<not> is_space (hd s)" "\<not> is_space (last s)"
  shows "py_strip s = s"
proof -
  from assms have front: "dropWhile is_space s = s"
    by (cases s) auto
  from assms(1) obtain ys y where s: "s = ys @ [y]"
    by (cases s rule: rev_cases) auto
  with assms(3) have rear: "dropWhile is_space (rev s) = rev s"
    by simp
  show ?thesis
    by (simp add: py_strip_def front rear)
qed

lemma py_strip_no_space:
  assumes "list_all (\<lambda>c. \<not> is_space c) s"
  shows "py_strip s = s"
proof (cases "s = []")
  case True
  then show ?thesis by (simp add: py_strip_Nil)
next
  case False
  with assms have "\<not> is_space (hd s)" "\<not> is_space (last s)"
    by (auto simp: list_all_iff)
  with False show ?thesis by (rule py_strip_id)
qed

lemma py_strip_digits:
  assumes "wf_ucd U" "list_all (uc_digit U) s"
  shows "py_strip s = s"
proof -
  from assms have "list_all (\<lambda>c. \<not> is_space c) s"
    by (auto simp: list_all_iff dest: wf_digit_not_space)
  then show ?thesis by (rule py_strip_no_space)
qed

lemma newline_is_space: "is_space 0x0A"
  by (simp add: is_space_def whitespace_def)

lemma py_strip_last: "py_strip s \<noteq> [] \<Longrightarrow> \<not> is_space (last (py_strip s))"
proof -
  let ?t = "dropWhile is_space (rev (dropWhile is_space s))"
  assume "py_strip s \<noteq> []"
  then have ne: "?t \<noteq> []"
    by (simp add: py_strip_def)
  then have "\<not> is_space (hd ?t)"
    by (rule hd_dropWhile)
  moreover have "last (py_strip s) = hd ?t"
    using ne by (simp add: py_strip_def last_rev)
  ultimately show ?thesis by simp
qed

lemma length_py_strip: "length (py_strip s) \<le> length s"
proof -
  have "length (py_strip s) \<le> length (dropWhile is_space s)"
    unfolding py_strip_def length_rev
    by (rule order_trans [OF length_dropWhile_le]) simp
  also have "\<dots> \<le> length s"
    by (rule length_dropWhile_le)
  finally show ?thesis .
qed

lemma re_match_anchored_strip:
  "re_match_anchored r (py_strip s) = re_fullmatch r (py_strip s)"
  using py_strip_last [of s] newline_is_space
  by (auto simp: re_match_anchored_def)

subsection \<open>Standalone detection of phone numbers\<close>

lemma phone_pattern_iff:
  "re_fullmatch (phone_pattern U) t \<longleftrightarrow> length t = 10 \<and> list_all (uc_decimal U) t"
  by (auto simp: re_fullmatch_iff phone_pattern_def lang_rep_Chars)

lemma aadhar_pattern_iff:
  "re_fullmatch (aadhar_pattern U) t \<longleftrightarrow> length t = 12 \<and> list_all (uc_decimal U) t"
  by (auto simp: re_fullmatch_iff aadhar_pattern_def lang_rep_Chars)

lemma falsy_py_str:
  "\<not> truthy v \<Longrightarrow> py_str v \<in> {[], ustr ''None'', ustr ''False'', ustr ''0''}"
  by (cases v) (auto simp: str_int_def ascii_digits_def ustr_def)

lemma falsy_not_10_digits:
  assumes "\<not> truthy v"
  shows "length (py_strip (py_str v)) < 10"
proof -
  from falsy_py_str [OF assms] have "length (py_str v) < 10"
    by (auto simp: ustr_def)
  with length_py_strip [of "py_str v"] show ?thesis by simp
qed

lemma is_standalone_phone:
  assumes "key = ustr ''phone'' \<or> key = ustr ''contact''"
  shows "is_standalone_pii U key v \<longleftrightarrow>
           length (py_strip (py_str v)) = 10 \<and> list_all (uc_decimal U) (py_strip (py_str v))"
proof (cases "truthy v")
  case True
  with assms show ?thesis
    by (auto simp: is_standalone_pii_def Let_def re_match_anchored_strip phone_pattern_iff)
next
  case False
  with falsy_not_10_digits [of v] show ?thesis
    by (simp add: is_standalone_pii_def)
qed

lemma is_standalone_aadhar:
  "truthy v \<Longrightarrow> is_standalone_pii U (ustr ''aadhar'') v \<longleftrightarrow>
     length (py_strip (py_str v)) = 12 \<and> list_all (uc_decimal U) (py_strip (py_str v))"
  by (simp add: is_standalone_pii_def Let_def re_match_anchored_strip aadhar_pattern_iff
      ustr_eq_iff)

text \<open>
  Claim C6. For every value \<open>v\<close>, \<open>is_standalone_pii\<close> on the field \<^verbatim>\<open>phone\<close>
  (and likewise \<^verbatim>\<open>contact\<close>) is true iff the trimmed string form of \<open>v\<close> consists
  of exactly 10 decimal digits (the characters of the class \<^verbatim>\<open>\d\<close>, after
  \<^verbatim>\<open>str.strip()\<close> has removed the white space around them); so it is false when the
  length differs or a character is not a decimal digit, and it is false for every
  empty or falsy \<open>v\<close>. This holds whatever the character database is.
\<close>

theorem C6_phone_standalone:
  "(is_standalone_pii U (ustr ''phone'') v \<longleftrightarrow>
      length (py_strip (py_str v)) = 10 \<and> list_all (uc_decimal U) (py_strip (py_str v)))
   \<and> (is_standalone_pii U (ustr ''contact'') v \<longleftrightarrow>
      length (py_strip (py_str v)) = 10 \<and> list_all (uc_decimal U) (py_strip (py_str v)))
   \<and> (\<not> truthy v \<longrightarrow>
        \<not> is_standalone_pii U (ustr ''phone'') v
        \<and> \<not> is_standalone_pii U (ustr ''contact'') v)"
  using is_standalone_phone [of "ustr ''phone''" U v]
    is_standalone_phone [of "ustr ''contact''" U v]
  by (simp add: is_standalone_pii_def)

theorem C6_phone_standalone_witness:
  "is_standalone_pii sample_ucd (ustr ''phone'') (VInt 9876543210)
   \<and> is_standalone_pii sample_ucd (ustr ''phone'') (VStr (0xA0 # ustr ''9876543210''))
   \<and> is_standalone_pii sample_ucd (ustr ''contact'')
        (VStr [0x661, 0x662, 0x663, 0x664, 0x665, 0x666, 0x667, 0x668, 0x669, 0x660])
   \<and> \<not> is_standalone_pii sample_ucd (ustr ''phone'') (VStr (ustr ''12345678'' @ [0xB2, 0x39]))
   \<and> \<not> truthy (VStr [])
   \<and> \<not> is_standalone_pii sample_ucd (ustr ''phone'') (VStr [])
   \<and> \<not> is_standalone_pii sample_ucd (ustr ''contact'') (VStr [])"
proof -
  have str: "str_int 9876543210 = ustr ''9876543210''"
    by (simp add: str_int_def ascii_digits_def ustr_def)
  have strip1: "py_strip (ustr ''9876543210'') = ustr ''9876543210''"
    by (simp add: py_strip_def ustr_def is_space_def whitespace_def)
  have strip2: "py_strip (0xA0 # ustr ''9876543210'') = ustr ''9876543210''"
    by (simp add: py_strip_def ustr_def is_space_def whitespace_def)
  have digits: "list_all (uc_decimal sample_ucd) (ustr ''9876543210'')"
    by (simp add: sample_ucd_def ascii_digits_def ustr_def)
  have a: "is_standalone_pii sample_ucd (ustr ''phone'') (VInt 9876543210)"
    using C6_phone_standalone [of sample_ucd "VInt 9876543210"] digits
    by (simp add: str strip1 length_ustr)
  have b: "is_standalone_pii sample_ucd (ustr ''phone'') (VStr (0xA0 # ustr ''9876543210''))"
    using C6_phone_standalone [of sample_ucd "VStr (0xA0 # ustr ''9876543210'')"] digits
    by (simp add: strip2 length_ustr)
  have c: "is_standalone_pii sample_ucd (ustr ''contact'')
        (VStr [0x661, 0x662, 0x663, 0x664, 0x665, 0x666, 0x667, 0x668, 0x669, 0x660])"
    using C6_phone_standalone [of sample_ucd
        "VStr [0x661, 0x662, 0x663, 0x664, 0x665, 0x666, 0x667, 0x668, 0x669, 0x660]"]
    by (simp add: py_strip_def is_space_def whitespace_def sample_ucd_def)
  have d: "\<not> is_standalone_pii sample_ucd (ustr ''phone'')
        (VStr (ustr ''12345678'' @ [0xB2, 0x39]))"
    using C6_phone_standalone [of sample_ucd "VStr (ustr ''12345678'' @ [0xB2, 0x39])"]
    by (simp add: py_strip_def is_space_def whitespace_def sample_ucd_def ustr_def
        ascii_digits_def)
  have e: "\<not> is_standalone_pii sample_ucd (ustr ''phone'') (VStr [])
      \<and> \<not> is_standalone_pii sample_ucd (ustr ''contact'') (VStr [])"
    using C6_phone_standalone [of sample_ucd "VStr []"] by (simp add: py_strip_Nil)
  from a b c d e show ?thesis by simp
qed

subsection \<open>Masking of phone numbers and Aadhaar numbers\<close>

lemma mask_value_phone:
  assumes "wf_ucd U" "key = ustr ''phone'' \<or> key = ustr ''contact''" "length v = 10"
    "list_all (uc_digit U) v"
  shows "mask_value U key v = Inr (take 2 v @ ustr ''XXXXXX'' @ drop 8 v)"
  using assms py_strip_digits [OF assms(1,4)]
  by (auto simp: mask_value_def mask_phone_def py_isdigit_def slice_to_def slice_last_def)

lemma mask_value_aadhar:
  assumes "wf_ucd U" "length v = 12" "list_all (uc_digit U) v"
  shows "mask_value U (ustr ''aadhar'') v = Inr (take 4 v @ ustr ''XXXX'' @ drop 8 v)"
  using assms py_strip_digits [OF assms(1,3)]
  by (auto simp: mask_value_def mask_phone_def mask_aadhar_def py_isdigit_def
      slice_to_def slice_last_def ustr_eq_iff)

lemma ascii_digits_decimal:
  assumes "wf_ucd U" "list_all (\<lambda>c. c \<in> set ascii_digits) s"
  shows "list_all (uc_decimal U) s"
proof -
  have "c < 128" if "c \<in> set ascii_digits" for c
    using that by (auto simp: ascii_digits_def ustr_def)
  with assms show ?thesis
    by (auto simp: list_all_iff wf_decimal_ascii)
qed

lemma py_bind_Inr [simp]: "py_bind (Inr x) f = f x"
  by (simp add: py_bind_def)

lemma py_bind_Inl [simp]: "py_bind (Inl e) f = Inl e"
  by (simp add: py_bind_def)

lemma process_phone_example:
  assumes "wf_ucd U"
  shows "process_record U [(ustr ''phone'', VStr (ustr ''9876543210''))] =
           Inr ([(ustr ''phone'', VStr (ustr ''98XXXXXX10''))], True)"
proof -
  let ?v = "ustr ''9876543210''"
  have "list_all (\<lambda>c. c \<in> set ascii_digits) ?v"
    by (simp add: ascii_digits_def ustr_def)
  from ascii_digits_decimal [OF assms this] have dec: "list_all (uc_decimal U) ?v" .
  then have dig: "list_all (uc_digit U) ?v"
    using wf_decimal_digit [OF assms] by (auto simp: list_all_iff)
  have strip: "py_strip ?v = ?v"
    using py_strip_digits [OF assms dig] .
  have st: "is_standalone_pii U (ustr ''phone'') (VStr ?v)"
    using dec by (simp add: is_standalone_phone strip length_ustr)
  have "mask_value U (ustr ''phone'') ?v = Inr (take 2 ?v @ ustr ''XXXXXX'' @ drop 8 ?v)"
    using dig by (intro mask_value_phone [OF assms]) (simp_all add: length_ustr)
  also have "take 2 ?v @ ustr ''XXXXXX'' @ drop 8 ?v = ustr ''98XXXXXX10''"
    by (simp add: ustr_def)
  finally have m: "mask_value U (ustr ''phone'') ?v = Inr (ustr ''98XXXXXX10'')" .
  have ne: "?v \<noteq> []" by (simp add: ustr_def)
  show ?thesis
    using st m ne by (simp add: process_record_def)
qed

lemma process_aadhar_example:
  assumes "wf_ucd U"
  shows "process_record U [(ustr ''aadhar'', VStr (ustr ''123456789012''))] =
           Inr ([(ustr ''aadhar'', VStr (ustr ''1234XXXX9012''))], True)"
proof -
  let ?v = "ustr ''123456789012''"
  have "list_all (\<lambda>c. c \<in> set ascii_digits) ?v"
    by (simp add: ascii_digits_def ustr_def)
  from ascii_digits_decimal [OF assms this] have dec: "list_all (uc_decimal U) ?v" .
  then have dig: "list_all (uc_digit U) ?v"
    using wf_decimal_digit [OF assms] by (auto simp: list_all_iff)
  have strip: "py_strip ?v = ?v"
    using py_strip_digits [OF assms dig] .
  have ne: "?v \<noteq> []" by (simp add: ustr_def)
  have st: "is_standalone_pii U (ustr ''aadhar'') (VStr ?v)"
    using dec ne by (simp add: is_standalone_aadhar strip length_ustr)
  have "mask_value U (ustr ''aadhar'') ?v = Inr (take 4 ?v @ ustr ''XXXX'' @ drop 8 ?v)"
    using dig by (intro mask_value_aadhar [OF assms]) (simp_all add: length_ustr)
  also have "take 4 ?v @ ustr ''XXXX'' @ drop 8 ?v = ustr ''1234XXXX9012''"
    by (simp add: ustr_def)
  finally have m: "mask_value U (ustr ''aadhar'') ?v = Inr (ustr ''1234XXXX9012'')" .
  show ?thesis
    using st m ne by (simp add: process_record_def)
qed

text \<open>
  Claim C1. Processing the record \<^verbatim>\<open>{"phone": "9876543210"}\<close> gives
  \<^verbatim>\<open>{"phone": "98XXXXXX10"}\<close> with the PII flag set, processing
  \<^verbatim>\<open>{"aadhar": "123456789012"}\<close> gives the value \<^verbatim>\<open>"1234XXXX9012"\<close> with the
  flag set, and in general \<open>mask_value\<close> on the field \<^verbatim>\<open>phone\<close> or \<^verbatim>\<open>contact\<close>
  turns a value of exactly 10 digits into its first 2 characters, six \<^verbatim>\<open>X\<close> and its
  last 2 characters, and on the field \<^verbatim>\<open>aadhar\<close> a value of exactly 12 digits into
  its first 4 characters, four \<^verbatim>\<open>X\<close> and its last 4 characters. A digit is what
  \<^verbatim>\<open>str.isdigit\<close> accepts, the test of lines 98 and 101.
\<close>

theorem C1_phone_aadhar_masking:
  assumes "wf_ucd U"
  shows "process_record U [(ustr ''phone'', VStr (ustr ''9876543210''))] =
           Inr ([(ustr ''phone'', VStr (ustr ''98XXXXXX10''))], True)
   \<and> process_record U [(ustr ''aadhar'', VStr (ustr ''123456789012''))] =
       Inr ([(ustr ''aadhar'', VStr (ustr ''1234XXXX9012''))], True)
   \<and> (\<forall>v. length v = 10 \<and> list_all (uc_digit U) v \<longrightarrow>
         mask_value U (ustr ''phone'') v
           = Inr (take 2 v @ ustr ''XXXXXX'' @ drop (length v - 2) v)
       \<and> mask_value U (ustr ''contact'') v
           = Inr (take 2 v @ ustr ''XXXXXX'' @ drop (length v - 2) v))
   \<and> (\<forall>v. length v = 12 \<and> list_all (uc_digit U) v \<longrightarrow>
         mask_value U (ustr ''aadhar'') v
           = Inr (take 4 v @ ustr ''XXXX'' @ drop (length v - 4) v))"
  using process_phone_example [OF assms] process_aadhar_example [OF assms]
  by (simp add: mask_value_phone [OF assms] mask_value_aadhar [OF assms])

theorem C1_phone_aadhar_masking_witness:
  "wf_ucd sample_ucd
   \<and> length (ustr ''9876543210'') = 10 \<and> list_all (uc_digit sample_ucd) (ustr ''9876543210'')
   \<and> mask_value sample_ucd (ustr ''contact'') (ustr ''9876543210'') = Inr (ustr ''98XXXXXX10'')
   \<and> length (ustr ''123456789012'') = 12
   \<and> list_all (uc_digit sample_ucd) (ustr ''123456789012'')
   \<and> mask_value sample_ucd (ustr ''aadhar'') (ustr ''123456789012'')
       = Inr (ustr ''1234XXXX9012'')"
proof -
  let ?p = "ustr ''9876543210''" and ?a = "ustr ''123456789012''"
  have d10: "length ?p = 10 \<and> list_all (uc_digit sample_ucd) ?p"
    by (simp add: sample_ucd_def ascii_digits_def ustr_def)
  have d12: "length ?a = 12 \<and> list_all (uc_digit sample_ucd) ?a"
    by (simp add: sample_ucd_def ascii_digits_def ustr_def)
  note c1 = C1_phone_aadhar_masking [OF wf_sample_ucd]
  from c1 d10
  have "mask_value sample_ucd (ustr ''contact'') ?p
          = Inr (take 2 ?p @ ustr ''XXXXXX'' @ drop (length ?p - 2) ?p)"
    by blast
  also have "take 2 ?p @ ustr ''XXXXXX'' @ drop (length ?p - 2) ?p = ustr ''98XXXXXX10''"
    by (simp add: ustr_def)
  finally have p: "mask_value sample_ucd (ustr ''contact'') ?p = Inr (ustr ''98XXXXXX10'')" .
  from c1 d12
  have "mask_value sample_ucd (ustr ''aadhar'') ?a
          = Inr (take 4 ?a @ ustr ''XXXX'' @ drop (length ?a - 4) ?a)"
    by blast
  also have "take 4 ?a @ ustr ''XXXX'' @ drop (length ?a - 4) ?a = ustr ''1234XXXX9012''"
    by (simp add: ustr_def)
  finally have a: "mask_value sample_ucd (ustr ''aadhar'') ?a = Inr (ustr ''1234XXXX9012'')" .
  from wf_sample_ucd d10 d12 p a show ?thesis by simp
qed

subsection \<open>The email pattern\<close>

lemma lang_Chars_single: "lang (Chars (one_of [c])) = {[c]}"
  by (auto simp: one_of_def)

lemma email_pattern_iff:
  "re_fullmatch email_pattern s \<longleftrightarrow>
     (\<exists>l d t. s = l @ ustr ''@'' @ d @ ustr ''.'' @ t
        \<and> l \<noteq> [] \<and> set l \<subseteq> set email_local_chars
        \<and> d \<noteq> [] \<and> set d \<subseteq> set email_domain_chars
        \<and> 2 \<le> length t \<and> set t \<subseteq> set email_tld_chars)"
proof -
  have at: "ustr ''@'' = [0x40]" and dot: "ustr ''.'' = [0x2E]"
    by (simp_all add: ustr_def)
  have "s \<in> lang email_pattern \<longleftrightarrow>
     (\<exists>l d t. s = l @ [0x40] @ d @ [0x2E] @ t
        \<and> l \<in> lang (plus (Chars (one_of email_local_chars)))
        \<and> d \<in> lang (plus (Chars (one_of email_domain_chars)))
        \<and> t \<in> lang (rep_min 2 (Chars (one_of email_tld_chars))))"
    unfolding email_pattern_def lang.simps(4) in_conc at dot lang_Chars_single
    by (simp del: lang.simps) blast
  then show ?thesis
    by (simp add: re_fullmatch_iff lang_plus_Chars lang_rep_min_Chars at dot one_of_def
        list_all_iff subset_eq)
qed

lemma email_match_has_at:
  assumes "re_match_anchored email_pattern s"
  shows "0x40 \<in> set s"
proof -
  have "0x40 \<in> set t" if "re_fullmatch email_pattern t" for t
    using that unfolding email_pattern_iff by (auto simp: ustr_def)
  with assms show ?thesis
    by (auto simp: re_match_anchored_def dest: in_set_butlastD)
qed

lemma email_example_pipe: "re_match_anchored email_pattern (ustr ''a@b.c|'')"
proof -
  have "ustr ''a@b.c|'' = ustr ''a'' @ ustr ''@'' @ ustr ''b'' @ ustr ''.'' @ ustr ''c|''"
    by (simp add: ustr_def)
  moreover have "set (ustr ''a'') \<subseteq> set email_local_chars"
    "set (ustr ''b'') \<subseteq> set email_domain_chars" "set (ustr ''c|'') \<subseteq> set email_tld_chars"
    by (simp_all add: email_local_chars_def email_domain_chars_def email_tld_chars_def
        ascii_lowercase_def ustr_def)
  moreover have "ustr ''a'' \<noteq> []" "ustr ''b'' \<noteq> []" "2 \<le> length (ustr ''c|'')"
    by (simp_all add: ustr_def)
  ultimately have "re_fullmatch email_pattern (ustr ''a@b.c|'')"
    unfolding email_pattern_iff by blast
  then show ?thesis by (simp add: re_match_anchored_def)
qed

lemma pipe_not_alpha: "wf_ucd U \<Longrightarrow> \<not> uc_alpha U 0x7C"
  by (simp add: wf_alpha_ascii ascii_uppercase_def ascii_lowercase_def ustr_def)

subsection \<open>Masking never raises\<close>

lemma py_index_Inr: "i < length xs \<Longrightarrow> py_index xs i = Inr (xs ! i)"
  by (simp add: py_index_def)

lemma py_index_last_Inr: "xs \<noteq> [] \<Longrightarrow> py_index_last xs = Inr (last xs)"
  by (simp add: py_index_last_def)

lemma mask_initial_Inr: "mask_initial part xs = Inr (if part = [] then xs else hd part # xs)"
  by (cases part) (simp_all add: mask_initial_def py_index_def)

lemma mask_email_total: "mask_email k s = None \<or> (\<exists>m. mask_email k s = Some (Inr m))"
  by (simp add: mask_email_def Let_def py_index_def)

lemma mask_upi_total: "mask_upi k s = None \<or> (\<exists>m. mask_upi k s = Some (Inr m))"
  by (simp add: mask_upi_def Let_def py_index_def)

lemma mask_name_total: "mask_name k s = None \<or> (\<exists>m. mask_name k s = Some (Inr m))"
proof (cases "k = ustr ''name'' \<and> 2 \<le> length (py_split s)")
  case True
  then have "py_split s \<noteq> []" "0 < length (py_split s)" by auto
  with True show ?thesis
    by (simp add: mask_name_def Let_def py_index_Inr py_index_last_Inr mask_initial_Inr)
next
  case False
  then show ?thesis by (auto simp: mask_name_def Let_def)
qed

lemma mask_passport_total:
  "mask_passport U k s = None \<or> (\<exists>m. mask_passport U k s = Some (Inr m))"
  by (auto simp: mask_passport_def passport_shape_def py_index_def)

lemma mask_phone_total: "mask_phone U k s = None \<or> (\<exists>m. mask_phone U k s = Some (Inr m))"
  by (simp add: mask_phone_def)

lemma mask_aadhar_total: "mask_aadhar U k s = None \<or> (\<exists>m. mask_aadhar U k s = Some (Inr m))"
  by (simp add: mask_aadhar_def)

lemma mask_address_total: "mask_address k s = None \<or> (\<exists>m. mask_address k s = Some (Inr m))"
  by (simp add: mask_address_def)

lemma first_return_total:
  assumes "\<forall>b \<in> set bs. b = None \<or> (\<exists>m. b = Some (Inr m))"
  shows "\<exists>m. first_return bs (Inr d) = Inr m"
  using assms
proof (induction bs)
  case Nil
  then show ?case by simp
next
  case (Cons b bs)
  then show ?case by (cases b) auto
qed

lemma mask_value_total: "\<exists>m. mask_value U k v = Inr m"
proof (cases "v = []")
  case True
  then show ?thesis by (simp add: mask_value_def)
next
  case False
  then show ?thesis
    unfolding mask_value_def Let_def
    using mask_phone_total mask_aadhar_total mask_email_total mask_name_total
      mask_address_total mask_upi_total mask_passport_total
    by (simp add: first_return_total)
qed

lemma mask_value_masked: "mask_value U k (py_str v) = Inr m \<Longrightarrow> masked U k v = VStr m"
  by (simp add: masked_def)

lemma masked_ex: "\<exists>m. mask_value U k (py_str v) = Inr m \<and> masked U k v = VStr m"
  using mask_value_total [of U k "py_str v"] by (auto simp: masked_def)

subsection \<open>Closed forms of the loops\<close>

lemma dict_contains_iff: "dict_contains d k \<longleftrightarrow> map_of d k \<noteq> None"
  by (simp add: dict_contains_def map_of_eq_None_iff)

lemma in_and_Inr:
  "in_and data k p = Inr (case map_of data k of Some v \<Rightarrow> p v | None \<Rightarrow> False)"
  by (auto simp: in_and_def dict_contains_iff dict_index_def split: option.splits)

lemma split_one_token:
  "list_all (\<lambda>c. \<not> is_space c) s \<Longrightarrow> split_ws_aux cur s = (if cur @ s = [] then [] else [cur @ s])"
  by (induction s arbitrary: cur) auto

lemma not_full_name_no_space:
  assumes "list_all (\<lambda>c. \<not> is_space c) s"
  shows "\<not> is_full_name U (VStr s)"
  using assms by (simp add: py_strip_no_space py_split_def split_one_token)

lemma full_name_truthy: "is_full_name U (VStr (py_str v)) \<Longrightarrow> truthy v"
proof (rule ccontr)
  assume a: "is_full_name U (VStr (py_str v))" and f: "\<not> truthy v"
  from f have "py_str v \<in> {[], ustr ''None'', ustr ''False'', ustr ''0''}"
    by (rule falsy_py_str)
  then have "list_all (\<lambda>c. \<not> is_space c) (py_str v)"
    by (auto simp: ustr_def is_space_def whitespace_def)
  from not_full_name_no_space [OF this] a show False by simp
qed

lemma email_truthy: "re_match_anchored email_pattern (py_str v) \<Longrightarrow> truthy v"
proof (rule ccontr)
  assume a: "re_match_anchored email_pattern (py_str v)" and f: "\<not> truthy v"
  from f have "py_str v \<in> {[], ustr ''None'', ustr ''False'', ustr ''0''}"
    by (rule falsy_py_str)
  then have "0x40 \<notin> set (py_str v)"
    by (auto simp: ustr_def)
  with email_match_has_at [OF a] show False by simp
qed

lemma user_context_Inr: "user_context U data = Inr (linked U data)"
  by (auto simp del: is_full_name.simps
      simp: user_context_def py_or_def in_and_Inr linked_def
      dest: full_name_truthy email_truthy split: option.splits)

lemma detect_loop_eq:
  "detect_loop U data items found = Inr (found @ map fst (filter (qualifies U data) items))"
proof (induction items arbitrary: found)
  case Nil
  then show ?case by simp
next
  case (Cons item items)
  obtain k v where item: "item = (k, v)" by (cases item)
  show ?case
    unfolding item
    by (auto simp del: is_full_name.simps is_physical_address.simps
        simp: Cons qualifies_def user_context_Inr Let_def ustr_eq_iff)
qed

lemma detect_found_fields:
  "detect_combinatorial_pii U record
     = Inr (2 \<le> length (found_fields U record), found_fields U record)"
  by (simp add: detect_combinatorial_pii_def detect_loop_eq found_fields_def)

lemma dict_set_fresh: "k \<notin> fst ` set d \<Longrightarrow> dict_set d k v = d @ [(k, v)]"
  by (induction d) auto

lemma map_of_dict_set: "map_of (dict_set d k v) = (map_of d)(k \<mapsto> v)"
  by (induction d) (auto simp: fun_eq_iff)

lemma keys_dict_set_if:
  "map fst (dict_set d k v) = (if k \<in> fst ` set d then map fst d else map fst d @ [k])"
  by (induction d) (fastforce simp: image_iff)+

lemma keys_dict_set: "k \<in> fst ` set d \<Longrightarrow> map fst (dict_set d k v) = map fst d"
  by (simp add: keys_dict_set_if)

lemma standalone_loop_eq:
  "distinct (map fst red @ map fst items) \<Longrightarrow>
   standalone_loop U items red pii =
     Inr (red @ standalone_pass U items,
          pii \<or> list_ex (\<lambda>(k, v). truthy v \<and> is_standalone_pii U k v) items)"
proof (induction items arbitrary: red pii)
  case Nil
  then show ?case by (simp add: standalone_pass_def)
next
  case (Cons item items)
  obtain k v where item: "item = (k, v)" by (cases item)
  from Cons.prems item have fresh: "k \<notin> fst ` set red" by auto
  have step: "\<And>w. distinct (map fst (red @ [(k, w)]) @ map fst items)"
    using Cons.prems item by auto
  obtain m where m: "mask_value U k (py_str v) = Inr m" "masked U k v = VStr m"
    using masked_ex by blast
  show ?case
    unfolding item
    using Cons.IH [OF step] fresh
    by (auto simp: dict_set_fresh m standalone_pass_def)
qed

lemma mask_found_eq:
  assumes "\<forall>k. map_of record k \<noteq> None \<longrightarrow> k \<in> fst ` set red"
  shows "\<exists>red'. mask_found U record fs red = Inr red'
           \<and> map fst red' = map fst red
           \<and> (\<forall>k. map_of red' k =
                (if k \<in> set fs \<and> (\<exists>v. map_of record k = Some v \<and> truthy v)
                 then Some (masked U k (the (map_of record k))) else map_of red k))"
  using assms
proof (induction fs arbitrary: red)
  case Nil
  then show ?case by simp
next
  case (Cons f fs)
  show ?case
  proof (cases "\<exists>v. map_of record f = Some v \<and> truthy v")
    case False
    then have skip: "mask_found U record (f # fs) red = mask_found U record fs red"
      by (auto simp: in_and_Inr split: option.splits)
    from Cons.IH [OF Cons.prems] False show ?thesis
      unfolding skip by auto
  next
    case True
    then obtain v where v: "map_of record f = Some v" "truthy v" by blast
    obtain m where m: "mask_value U f (py_str v) = Inr m" "masked U f v = VStr m"
      using masked_ex by blast
    let ?red = "dict_set red f (VStr m)"
    from v Cons.prems have f_in: "f \<in> fst ` set red" by auto
    have keys: "map fst ?red = map fst red"
      using f_in by (rule keys_dict_set)
    then have "fst ` set ?red = fst ` set red"
      by (metis list.set_map)
    with Cons.prems have pre: "\<forall>k. map_of record k \<noteq> None \<longrightarrow> k \<in> fst ` set ?red"
      by simp
    have step: "mask_found U record (f # fs) red = mask_found U record fs ?red"
      using v m by (simp add: in_and_Inr dict_index_def)
    from Cons.IH [OF pre] obtain red' where r:
      "mask_found U record fs ?red = Inr red'" "map fst red' = map fst ?red"
      "\<forall>k. map_of red' k =
          (if k \<in> set fs \<and> (\<exists>v. map_of record k = Some v \<and> truthy v)
           then Some (masked U k (the (map_of record k))) else map_of ?red k)"
      by blast
    show ?thesis
      unfolding step
      using r keys v m by (auto simp: map_of_dict_set)
  qed
qed

lemma standalone_pass_id: "\<not> has_standalone U record \<Longrightarrow> standalone_pass U record = record"
  unfolding has_standalone_def standalone_pass_def
  by (induction "record") auto

lemma keys_standalone_pass: "map fst (standalone_pass U record) = map fst record"
  by (induction "record") (auto simp: standalone_pass_def)

lemma found_fields_D:
  "k \<in> set (found_fields U record) \<Longrightarrow>
   \<exists>v. (k, v) \<in> set record \<and> qualifies U record (k, v)"
  by (auto simp: found_fields_def)

lemma found_fields_I:
  "(k, v) \<in> set record \<Longrightarrow> qualifies U record (k, v) \<Longrightarrow> k \<in> set (found_fields U record)"
  by (force simp: found_fields_def)

lemma qualifies_truthy: "qualifies U record (k, v) \<Longrightarrow> truthy v"
  by (simp add: qualifies_def)

lemma found_fields_present:
  assumes "distinct (map fst record)" "k \<in> set (found_fields U record)"
  shows "\<exists>v. map_of record k = Some v \<and> truthy v"
proof -
  from found_fields_D [OF assms(2)] obtain v
    where v: "(k, v) \<in> set record" "qualifies U record (k, v)" by blast
  from assms(1) v(1) have "map_of record k = Some v" by simp
  with qualifies_truthy [OF v(2)] show ?thesis by simp
qed

lemma standalone_loop_record:
  "distinct (map fst record) \<Longrightarrow>
   standalone_loop U record [] False = Inr (standalone_pass U record, has_standalone U record)"
  using standalone_loop_eq [of "[]" "record" U False] by (simp add: has_standalone_def)

lemma process_record_standalone:
  assumes "distinct (map fst record)" "has_standalone U record"
  shows "process_record U record = Inr (standalone_pass U record, True)"
  using assms by (simp add: process_record_def standalone_loop_record)

lemma process_record_none:
  assumes "distinct (map fst record)" "\<not> has_standalone U record"
    "\<not> 2 \<le> length (found_fields U record)"
  shows "process_record U record = Inr (record, False)"
  using assms
  by (simp add: process_record_def standalone_loop_record standalone_pass_id
      detect_found_fields)

lemma process_record_comb:
  assumes "distinct (map fst record)" "\<not> has_standalone U record"
    "2 \<le> length (found_fields U record)"
  shows "\<exists>out. process_record U record = Inr (out, True)
           \<and> map fst out = map fst record
           \<and> (\<forall>k. map_of out k =
                (if k \<in> set (found_fields U record)
                 then Some (masked U k (the (map_of record k))) else map_of record k))"
proof -
  have pre: "\<forall>k. map_of record k \<noteq> None \<longrightarrow> k \<in> fst ` set record"
    by (auto simp: map_of_eq_None_iff)
  from mask_found_eq [OF pre, of U "found_fields U record"] obtain out where out:
    "mask_found U record (found_fields U record) record = Inr out"
    "map fst out = map fst record"
    "\<forall>k. map_of out k =
        (if k \<in> set (found_fields U record) \<and> (\<exists>v. map_of record k = Some v \<and> truthy v)
         then Some (masked U k (the (map_of record k))) else map_of record k)"
    by blast
  have run: "process_record U record = Inr (out, True)"
    using assms out(1)
    by (simp add: process_record_def standalone_loop_record standalone_pass_id
        detect_found_fields)
  have "\<forall>k. map_of out k =
          (if k \<in> set (found_fields U record)
           then Some (masked U k (the (map_of record k))) else map_of record k)"
    using out(3) found_fields_present [OF assms(1)] by auto
  with run out(2) show ?thesis by blast
qed

lemma process_record_total:
  assumes "distinct (map fst record)"
  shows "\<exists>out flag. process_record U record = Inr (out, flag)"
  using process_record_standalone [OF assms] process_record_none [OF assms]
    process_record_comb [OF assms]
  by blast

lemma not_pii_field_not_standalone: "k \<notin> set pii_fields \<Longrightarrow> \<not> is_standalone_pii U k v"
  by (auto simp: pii_fields_def is_standalone_pii_def Let_def)

lemma not_pii_field_not_qualifies: "k \<notin> set pii_fields \<Longrightarrow> \<not> qualifies U record (k, v)"
  by (auto simp: pii_fields_def qualifies_def)

lemma standalone_pass_keeps:
  "(k, v) \<in> set record \<Longrightarrow> \<not> (truthy v \<and> is_standalone_pii U k v) \<Longrightarrow>
   (k, v) \<in> set (standalone_pass U record)"
  by (force simp: standalone_pass_def)

subsection \<open>The examples\<close>

lemma ustr_Nil_iff: "ustr s = [] \<longleftrightarrow> s = []"
  by (simp add: ustr_def)

lemma strip_asha: "py_strip (ustr ''Asha Rao'') = ustr ''Asha Rao''"
  by (simp add: py_strip_def ustr_def is_space_def whitespace_def)

lemma full_name_asha: "wf_ucd U \<Longrightarrow> is_full_name U (VStr (ustr ''Asha Rao''))"
  by (simp add: ustr_def py_strip_def py_split_def is_space_def whitespace_def
      name_part_ok_def py_isalpha_def py_remove_def wf_alpha_ascii ascii_uppercase_def
      ascii_lowercase_def)

lemma not_full_name_asha: "\<not> is_full_name U (VStr (ustr ''Asha''))"
  by (rule not_full_name_no_space) (simp add: ustr_def is_space_def whitespace_def)

lemma strip_email_pipe: "py_strip (ustr ''a@b.c|'') = ustr ''a@b.c|''"
  by (simp add: py_strip_def ustr_def is_space_def whitespace_def)

lemma strip_email_asha: "py_strip (ustr ''asha@example.com'') = ustr ''asha@example.com''"
  by (simp add: py_strip_def ustr_def is_space_def whitespace_def)

lemma email_example_asha: "re_match_anchored email_pattern (ustr ''asha@example.com'')"
proof -
  have "ustr ''asha@example.com''
          = ustr ''asha'' @ ustr ''@'' @ ustr ''example'' @ ustr ''.'' @ ustr ''com''"
    by (simp add: ustr_def)
  moreover have "set (ustr ''asha'') \<subseteq> set email_local_chars"
    "set (ustr ''example'') \<subseteq> set email_domain_chars"
    "set (ustr ''com'') \<subseteq> set email_tld_chars"
    by (simp_all add: email_local_chars_def email_domain_chars_def email_tld_chars_def
        ascii_lowercase_def ustr_def)
  moreover have "ustr ''asha'' \<noteq> []" "ustr ''example'' \<noteq> []" "2 \<le> length (ustr ''com'')"
    by (simp_all add: ustr_def)
  ultimately have "re_fullmatch email_pattern (ustr ''asha@example.com'')"
    unfolding email_pattern_iff by blast
  then show ?thesis by (simp add: re_match_anchored_def)
qed

lemma detect_name_device_example:
  assumes "wf_ucd U"
  shows "detect_combinatorial_pii U
           [(ustr ''name'', VStr (ustr ''Asha Rao'')), (ustr ''device_id'', VStr (ustr ''abc123''))]
         = Inr (True, [ustr ''name'', ustr ''device_id''])"
  using full_name_asha [OF assms]
  by (simp add: detect_found_fields found_fields_def qualifies_def linked_def ustr_eq_iff
      ustr_Nil_iff strip_asha del: is_full_name.simps)

lemma detect_device_example:
  "detect_combinatorial_pii U [(ustr ''device_id'', VStr (ustr ''abc123''))] = Inr (False, [])"
  by (simp add: detect_found_fields found_fields_def qualifies_def linked_def ustr_eq_iff
      ustr_Nil_iff del: is_full_name.simps)

lemma detect_email_pipe_example:
  assumes "wf_ucd U"
  shows "detect_combinatorial_pii U
           [(ustr ''name'', VStr (ustr ''Asha Rao'')), (ustr ''email'', VStr (ustr ''a@b.c|''))]
         = Inr (True, [ustr ''name'', ustr ''email''])"
  using full_name_asha [OF assms] email_example_pipe
  by (simp add: detect_found_fields found_fields_def qualifies_def linked_def ustr_eq_iff
      ustr_Nil_iff strip_asha strip_email_pipe del: is_full_name.simps)

lemma process_city_example:
  "process_record U [(ustr ''city'', VStr (ustr ''Pune''))]
     = Inr ([(ustr ''city'', VStr (ustr ''Pune''))], False)"
proof -
  let ?r = "[(ustr ''city'', VStr (ustr ''Pune''))]"
  have "\<not> has_standalone U ?r"
    by (simp add: has_standalone_def is_standalone_pii_def ustr_eq_iff Let_def)
  moreover have "found_fields U ?r = []"
    by (simp add: found_fields_def qualifies_def ustr_eq_iff del: is_full_name.simps)
  ultimately show ?thesis
    by (simp add: process_record_none)
qed

subsection \<open>The top-level domain of an email\<close>

text \<open>
  Claim C7 says that the email pattern accepts exactly the strings
  \<^verbatim>\<open>local@domain.tld\<close> whose top-level domain has at least 2 alphabetic characters,
  and no value whose top-level domain holds a character that is not alphabetic. The
  pattern of line 15 writes the last class as \<^verbatim>\<open>[A-Z|a-z]\<close>, which contains the
  character \<^verbatim>\<open>|\<close>: the value \<^verbatim>\<open>a@b.c|\<close> matches, and the combinatorial detector
  counts it as an email. (\<open>email_pattern_iff\<close> above is what the pattern accepts.)
\<close>

theorem C7_email_tld_accepts_pipe:
  assumes "wf_ucd U"
  shows "re_match_anchored email_pattern (py_strip (ustr ''a@b.c|''))
   \<and> \<not> uc_alpha U 0x7C
   \<and> detect_combinatorial_pii U
        [(ustr ''name'', VStr (ustr ''Asha Rao'')), (ustr ''email'', VStr (ustr ''a@b.c|''))]
       = Inr (True, [ustr ''name'', ustr ''email''])"
  using email_example_pipe pipe_not_alpha [OF assms] detect_email_pipe_example [OF assms]
  by (simp add: strip_email_pipe)

theorem C7_email_tld_accepts_pipe_witness:
  "wf_ucd sample_ucd
   \<and> re_match_anchored email_pattern (py_strip (ustr ''a@b.c|''))
   \<and> \<not> uc_alpha sample_ucd 0x7C
   \<and> detect_combinatorial_pii sample_ucd
        [(ustr ''name'', VStr (ustr ''Asha Rao'')), (ustr ''email'', VStr (ustr ''a@b.c|''))]
       = Inr (True, [ustr ''name'', ustr ''email''])"
  using C7_email_tld_accepts_pipe [OF wf_sample_ucd] wf_sample_ucd by simp

subsection \<open>The output keeps the fields of the input\<close>

lemma process_record_keys:
  assumes "distinct (map fst record)"
  shows "\<exists>out flag. process_record U record = Inr (out, flag)
           \<and> map fst out = map fst record
           \<and> (\<forall>(k, v)\<in>set record. k \<notin> set pii_fields \<longrightarrow> (k, v) \<in> set out)"
proof (cases "has_standalone U record")
  case True
  have "\<forall>(k, v)\<in>set record. k \<notin> set pii_fields \<longrightarrow> (k, v) \<in> set (standalone_pass U record)"
    using standalone_pass_keeps not_pii_field_not_standalone by blast
  with process_record_standalone [OF assms True] keys_standalone_pass show ?thesis
    by blast
next
  case no_standalone: False
  show ?thesis
  proof (cases "2 \<le> length (found_fields U record)")
    case False
    from process_record_none [OF assms no_standalone False] show ?thesis
      by auto
  next
    case True
    from process_record_comb [OF assms no_standalone True] obtain out where out:
      "process_record U record = Inr (out, True)" "map fst out = map fst record"
      "\<forall>k. map_of out k =
          (if k \<in> set (found_fields U record)
           then Some (masked U k (the (map_of record k))) else map_of record k)"
      by blast
    have "(k, v) \<in> set out" if kv: "(k, v) \<in> set record" and k: "k \<notin> set pii_fields" for k v
    proof -
      from k have "k \<notin> set (found_fields U record)"
        using found_fields_D not_pii_field_not_qualifies by blast
      with out(3) have "map_of out k = map_of record k" by simp
      also from assms kv have "\<dots> = Some v" by simp
      finally show ?thesis by (rule map_of_SomeD)
    qed
    with out(1,2) show ?thesis by blast
  qed
qed

text \<open>
  Claim C5. For every record (a dictionary: its keys are distinct), the output of
  \<open>process_record\<close> has exactly the field names of the input, in the same order, and
  every field whose name is outside the recognised PII fields keeps its value. In
  particular \<^verbatim>\<open>{"city": "Pune"}\<close> comes back unchanged with the PII flag false. This
  holds whatever the character database is.
\<close>

theorem C5_fields_preserved:
  "(distinct (map fst record) \<longrightarrow>
      (\<exists>out flag. process_record U record = Inr (out, flag)
         \<and> map fst out = map fst record
         \<and> (\<forall>(k, v)\<in>set record. k \<notin> set pii_fields \<longrightarrow> (k, v) \<in> set out)))
   \<and> process_record U [(ustr ''city'', VStr (ustr ''Pune''))]
       = Inr ([(ustr ''city'', VStr (ustr ''Pune''))], False)"
  using process_record_keys [of "record" U] process_city_example [of U] by blast

theorem C5_fields_preserved_witness:
  "distinct (map fst [(ustr ''city'', VStr (ustr ''Pune'')),
                      (ustr ''phone'', VStr (ustr ''9876543210''))])
   \<and> ustr ''city'' \<notin> set pii_fields
   \<and> (\<exists>out flag.
        process_record sample_ucd
          [(ustr ''city'', VStr (ustr ''Pune'')), (ustr ''phone'', VStr (ustr ''9876543210''))]
          = Inr (out, flag)
        \<and> map fst out = [ustr ''city'', ustr ''phone'']
        \<and> (ustr ''city'', VStr (ustr ''Pune'')) \<in> set out)"
proof -
  let ?r = "[(ustr ''city'', VStr (ustr ''Pune'')), (ustr ''phone'', VStr (ustr ''9876543210''))]"
  have d: "distinct (map fst ?r)" by (simp add: ustr_eq_iff)
  have c: "ustr ''city'' \<notin> set pii_fields" by (simp add: pii_fields_def ustr_eq_iff)
  from C5_fields_preserved [of ?r sample_ucd] d obtain out flag where out:
    "process_record sample_ucd ?r = Inr (out, flag)" "map fst out = map fst ?r"
    "\<forall>(k, v)\<in>set ?r. k \<notin> set pii_fields \<longrightarrow> (k, v) \<in> set out"
    by blast
  from out(3) c have "(ustr ''city'', VStr (ustr ''Pune'')) \<in> set out" by simp
  with out(1,2) d c show ?thesis by simp
qed

subsection \<open>Standalone detection takes precedence\<close>

lemma process_record_precedence:
  assumes "distinct (map fst record)"
  shows "\<exists>out flag b found.
           process_record U record = Inr (out, flag)
           \<and> detect_combinatorial_pii U record = Inr (b, found)
           \<and> (has_standalone U record \<longrightarrow>
                out = standalone_pass U record
                \<and> (\<forall>(k, v)\<in>set record. \<not> is_standalone_pii U k v \<longrightarrow> (k, v) \<in> set out))
           \<and> (\<not> has_standalone U record \<longrightarrow>
                (\<forall>(k, v)\<in>set record. k \<notin> set found \<longrightarrow> (k, v) \<in> set out))"
proof (cases "has_standalone U record")
  case True
  have "\<forall>(k, v)\<in>set record.
          \<not> is_standalone_pii U k v \<longrightarrow> (k, v) \<in> set (standalone_pass U record)"
    using standalone_pass_keeps by blast
  with process_record_standalone [OF assms True] detect_found_fields True show ?thesis
    by blast
next
  case no_standalone: False
  show ?thesis
  proof (cases "2 \<le> length (found_fields U record)")
    case False
    from process_record_none [OF assms no_standalone False] detect_found_fields no_standalone
    show ?thesis by auto
  next
    case True
    from process_record_comb [OF assms no_standalone True] obtain out where out:
      "process_record U record = Inr (out, True)"
      "\<forall>k. map_of out k =
          (if k \<in> set (found_fields U record)
           then Some (masked U k (the (map_of record k))) else map_of record k)"
      by blast
    have "(k, v) \<in> set out"
      if kv: "(k, v) \<in> set record" and k: "k \<notin> set (found_fields U record)" for k v
    proof -
      from out(2) k have "map_of out k = map_of record k" by simp
      also from assms kv have "\<dots> = Some v" by simp
      finally show ?thesis by (rule map_of_SomeD)
    qed
    with out(1) detect_found_fields no_standalone show ?thesis by blast
  qed
qed

text \<open>
  Claim C2. For every record (a dictionary: its keys are distinct), if at least one
  field is standalone PII then the output of \<open>process_record\<close> is what the first loop
  built: no field is masked by the combinatorial pass, so every field that is not
  itself standalone PII keeps its value, also one that the combinatorial detector
  reports. When no field is standalone PII, the combinatorial pass masks only fields
  of its own qualifying set: every field outside the reported names keeps its value.
  This holds whatever the character database is.
\<close>

theorem C2_standalone_precedence:
  "distinct (map fst record) \<longrightarrow>
     (\<exists>out flag b found.
        process_record U record = Inr (out, flag)
        \<and> detect_combinatorial_pii U record = Inr (b, found)
        \<and> (has_standalone U record \<longrightarrow>
             out = standalone_pass U record
             \<and> (\<forall>(k, v)\<in>set record. \<not> is_standalone_pii U k v \<longrightarrow> (k, v) \<in> set out))
        \<and> (\<not> has_standalone U record \<longrightarrow>
             (\<forall>(k, v)\<in>set record. k \<notin> set found \<longrightarrow> (k, v) \<in> set out)))"
  using process_record_precedence [of "record" U] by blast

theorem C2_standalone_precedence_witness:
  "distinct (map fst [(ustr ''phone'', VStr (ustr ''9876543210'')),
                      (ustr ''name'', VStr (ustr ''Asha Rao'')),
                      (ustr ''email'', VStr (ustr ''asha@example.com''))])
   \<and> has_standalone sample_ucd
        [(ustr ''phone'', VStr (ustr ''9876543210'')), (ustr ''name'', VStr (ustr ''Asha Rao'')),
         (ustr ''email'', VStr (ustr ''asha@example.com''))]
   \<and> \<not> is_standalone_pii sample_ucd (ustr ''name'') (VStr (ustr ''Asha Rao''))
   \<and> detect_combinatorial_pii sample_ucd
        [(ustr ''phone'', VStr (ustr ''9876543210'')), (ustr ''name'', VStr (ustr ''Asha Rao'')),
         (ustr ''email'', VStr (ustr ''asha@example.com''))]
       = Inr (True, [ustr ''name'', ustr ''email''])
   \<and> (\<exists>out flag.
         process_record sample_ucd
           [(ustr ''phone'', VStr (ustr ''9876543210'')), (ustr ''name'', VStr (ustr ''Asha Rao'')),
            (ustr ''email'', VStr (ustr ''asha@example.com''))] = Inr (out, flag)
         \<and> (ustr ''name'', VStr (ustr ''Asha Rao'')) \<in> set out)
   \<and> distinct (map fst [(ustr ''name'', VStr (ustr ''Asha Rao'')),
                        (ustr ''device_id'', VStr (ustr ''abc123'')),
                        (ustr ''city'', VStr (ustr ''Pune''))])
   \<and> \<not> has_standalone sample_ucd
        [(ustr ''name'', VStr (ustr ''Asha Rao'')), (ustr ''device_id'', VStr (ustr ''abc123'')),
         (ustr ''city'', VStr (ustr ''Pune''))]
   \<and> detect_combinatorial_pii sample_ucd
        [(ustr ''name'', VStr (ustr ''Asha Rao'')), (ustr ''device_id'', VStr (ustr ''abc123'')),
         (ustr ''city'', VStr (ustr ''Pune''))]
       = Inr (True, [ustr ''name'', ustr ''device_id''])
   \<and> (\<exists>out flag.
         process_record sample_ucd
           [(ustr ''name'', VStr (ustr ''Asha Rao'')), (ustr ''device_id'', VStr (ustr ''abc123'')),
            (ustr ''city'', VStr (ustr ''Pune''))] = Inr (out, flag)
         \<and> (ustr ''city'', VStr (ustr ''Pune'')) \<in> set out)"
proof -
  let ?U = sample_ucd
  let ?r = "[(ustr ''phone'', VStr (ustr ''9876543210'')), (ustr ''name'', VStr (ustr ''Asha Rao'')),
             (ustr ''email'', VStr (ustr ''asha@example.com''))]"
  let ?q = "[(ustr ''name'', VStr (ustr ''Asha Rao'')), (ustr ''device_id'', VStr (ustr ''abc123'')),
             (ustr ''city'', VStr (ustr ''Pune''))]"
  have dr: "distinct (map fst ?r)" and dq: "distinct (map fst ?q)"
    by (simp_all add: ustr_eq_iff)
  have dec: "list_all (uc_decimal ?U) (ustr ''9876543210'')"
    by (simp add: sample_ucd_def ascii_digits_def ustr_def)
  have strip: "py_strip (ustr ''9876543210'') = ustr ''9876543210''"
    by (simp add: py_strip_def ustr_def is_space_def whitespace_def)
  have "is_standalone_pii ?U (ustr ''phone'') (VStr (ustr ''9876543210''))"
    using dec by (simp add: is_standalone_phone strip length_ustr)
  then have sr: "has_standalone ?U ?r"
    by (simp add: has_standalone_def ustr_Nil_iff)
  have n: "\<not> is_standalone_pii ?U (ustr ''name'') (VStr (ustr ''Asha Rao''))"
    by (simp add: is_standalone_pii_def ustr_eq_iff Let_def)
  have sq: "\<not> has_standalone ?U ?q"
    by (simp add: has_standalone_def is_standalone_pii_def ustr_eq_iff Let_def)
  have fr: "detect_combinatorial_pii ?U ?r = Inr (True, [ustr ''name'', ustr ''email''])"
    using full_name_asha [OF wf_sample_ucd] email_example_asha
    by (simp add: detect_found_fields found_fields_def qualifies_def linked_def ustr_eq_iff
        ustr_Nil_iff strip_asha strip_email_asha del: is_full_name.simps)
  have fq: "detect_combinatorial_pii ?U ?q = Inr (True, [ustr ''name'', ustr ''device_id''])"
    using full_name_asha [OF wf_sample_ucd]
    by (simp add: detect_found_fields found_fields_def qualifies_def linked_def ustr_eq_iff
        ustr_Nil_iff strip_asha del: is_full_name.simps)
  from C2_standalone_precedence [of ?r ?U] dr sr obtain out flag where r:
    "process_record ?U ?r = Inr (out, flag)"
    "\<forall>(k, v)\<in>set ?r. \<not> is_standalone_pii ?U k v \<longrightarrow> (k, v) \<in> set out"
    by blast
  from r(2) n have "(ustr ''name'', VStr (ustr ''Asha Rao'')) \<in> set out" by simp
  with r(1) have first: "\<exists>out flag. process_record ?U ?r = Inr (out, flag)
      \<and> (ustr ''name'', VStr (ustr ''Asha Rao'')) \<in> set out"
    by blast
  from C2_standalone_precedence [of ?q ?U] dq sq fq obtain out' flag' where q:
    "process_record ?U ?q = Inr (out', flag')"
    "\<forall>(k, v)\<in>set ?q. k \<notin> set [ustr ''name'', ustr ''device_id''] \<longrightarrow> (k, v) \<in> set out'"
    by auto
  from q(2) have "(ustr ''city'', VStr (ustr ''Pune'')) \<in> set out'"
    by (simp add: ustr_eq_iff)
  with q(1) have second: "\<exists>out flag. process_record ?U ?q = Inr (out, flag)
      \<and> (ustr ''city'', VStr (ustr ''Pune'')) \<in> set out"
    by blast
  from dr sr n fr first dq sq fq second show ?thesis
    by (intro conjI)
qed

subsection \<open>Device and network identifiers need an identity signal\<close>

lemma found_device_iff:
  assumes "k = ustr ''device_id'' \<or> k = ustr ''ip_address''"
  shows "k \<in> set (found_fields U data) \<longleftrightarrow>
           (\<exists>v. (k, v) \<in> set data \<and> truthy v) \<and> linked U data"
proof
  assume "k \<in> set (found_fields U data)"
  then obtain v where "(k, v) \<in> set data" "qualifies U data (k, v)"
    using found_fields_D by blast
  with assms show "(\<exists>v. (k, v) \<in> set data \<and> truthy v) \<and> linked U data"
    by (auto simp: qualifies_def ustr_eq_iff)
next
  assume "(\<exists>v. (k, v) \<in> set data \<and> truthy v) \<and> linked U data"
  then obtain v where v: "(k, v) \<in> set data" "truthy v" and l: "linked U data"
    by blast
  from assms v(2) l have "qualifies U data (k, v)"
    by (auto simp: qualifies_def)
  with v(1) show "k \<in> set (found_fields U data)"
    by (rule found_fields_I)
qed

lemma linked_iff:
  "linked U data \<longleftrightarrow>
     (\<exists>n. map_of data (ustr ''name'') = Some n \<and> is_full_name U (VStr (py_str n)))
     \<or> (\<exists>e. map_of data (ustr ''email'') = Some e
             \<and> re_match_anchored email_pattern (py_str e))"
  by (auto simp del: is_full_name.simps simp: linked_def split: option.splits)

text \<open>
  Claim C3. For every record, \<open>detect_combinatorial_pii\<close> returns a list of field
  names and the boolean that says whether the list has at least 2 names. The name
  \<^verbatim>\<open>device_id\<close> (likewise \<^verbatim>\<open>ip_address\<close>) is in the list exactly when the record has
  that field with a non-empty value and also has a \<^verbatim>\<open>name\<close> field that is
  full-name-shaped or an \<^verbatim>\<open>email\<close> field that matches the email pattern: this
  holds whatever the character database is. The two examples of the claim are
  evaluated; the first one needs the letters of \<^verbatim>\<open>Asha Rao\<close> to be letters.
\<close>

theorem C3_device_needs_identity:
  "(\<exists>found.
      detect_combinatorial_pii U data = Inr (2 \<le> length found, found)
      \<and> (\<forall>k\<in>{ustr ''device_id'', ustr ''ip_address''}.
            k \<in> set found \<longleftrightarrow>
              (\<exists>v. (k, v) \<in> set data \<and> truthy v)
              \<and> ((\<exists>n. map_of data (ustr ''name'') = Some n \<and> is_full_name U (VStr (py_str n)))
                 \<or> (\<exists>e. map_of data (ustr ''email'') = Some e
                          \<and> re_match_anchored email_pattern (py_str e)))))
   \<and> (wf_ucd U \<longrightarrow>
        detect_combinatorial_pii U
          [(ustr ''name'', VStr (ustr ''Asha Rao'')), (ustr ''device_id'', VStr (ustr ''abc123''))]
         = Inr (True, [ustr ''name'', ustr ''device_id'']))
   \<and> detect_combinatorial_pii U [(ustr ''device_id'', VStr (ustr ''abc123''))] = Inr (False, [])"
proof -
  have "\<forall>k\<in>{ustr ''device_id'', ustr ''ip_address''}.
          k \<in> set (found_fields U data) \<longleftrightarrow>
            (\<exists>v. (k, v) \<in> set data \<and> truthy v)
            \<and> ((\<exists>n. map_of data (ustr ''name'') = Some n \<and> is_full_name U (VStr (py_str n)))
               \<or> (\<exists>e. map_of data (ustr ''email'') = Some e
                        \<and> re_match_anchored email_pattern (py_str e)))"
    using found_device_iff [of _ U data] linked_iff [of U data] by blast
  with detect_found_fields [of U data] detect_name_device_example [of U]
    detect_device_example [of U]
  show ?thesis by blast
qed

theorem C3_device_needs_identity_witness:
  "wf_ucd sample_ucd
   \<and> ustr ''device_id'' \<in> {ustr ''device_id'', ustr ''ip_address''}
   \<and> (\<exists>found.
        detect_combinatorial_pii sample_ucd
          [(ustr ''email'', VStr (ustr ''asha@example.com'')),
           (ustr ''device_id'', VStr (ustr ''abc123''))]
          = Inr (2 \<le> length found, found)
        \<and> ustr ''device_id'' \<in> set found)
   \<and> (\<exists>found.
        detect_combinatorial_pii sample_ucd
          [(ustr ''name'', VStr (ustr ''Asha'')), (ustr ''device_id'', VStr (ustr ''abc123''))]
          = Inr (2 \<le> length found, found)
        \<and> ustr ''device_id'' \<notin> set found)
   \<and> (\<exists>found.
        detect_combinatorial_pii sample_ucd
          [(ustr ''name'', VStr [0x4A, 0x6F, 0x73, 0xE9, 0x20, 0x4D, 0x61, 0x72, 0xED, 0x61]),
           (ustr ''device_id'', VStr (ustr ''abc123''))]
          = Inr (2 \<le> length found, found)
        \<and> ustr ''device_id'' \<in> set found)
   \<and> detect_combinatorial_pii sample_ucd
        [(ustr ''name'', VStr (ustr ''Asha Rao'')), (ustr ''device_id'', VStr (ustr ''abc123''))]
       = Inr (True, [ustr ''name'', ustr ''device_id''])"
proof -
  let ?U = sample_ucd
  let ?a = "[(ustr ''email'', VStr (ustr ''asha@example.com'')),
             (ustr ''device_id'', VStr (ustr ''abc123''))]"
  let ?b = "[(ustr ''name'', VStr (ustr ''Asha'')), (ustr ''device_id'', VStr (ustr ''abc123''))]"
  let ?jose = "[0x4A, 0x6F, 0x73, 0xE9, 0x20, 0x4D, 0x61, 0x72, 0xED, 0x61]"
  let ?c = "[(ustr ''name'', VStr ?jose), (ustr ''device_id'', VStr (ustr ''abc123''))]"
  note c3 = C3_device_needs_identity [of sample_ucd]
  have ea: "re_match_anchored email_pattern (py_str (VStr (ustr ''asha@example.com'')))"
    using email_example_asha by simp
  have nb: "\<not> is_full_name ?U (VStr (py_str (VStr (ustr ''Asha''))))"
    using not_full_name_asha by simp
  have nc: "is_full_name ?U (VStr (py_str (VStr ?jose)))"
    by (simp add: py_strip_def py_split_def is_space_def whitespace_def name_part_ok_def
        py_isalpha_def py_remove_def sample_ucd_def latin1_letter_def ascii_uppercase_def
        ascii_lowercase_def ustr_def)
  from c3 [of ?a] obtain found where a:
    "detect_combinatorial_pii ?U ?a = Inr (2 \<le> length found, found)"
    "ustr ''device_id'' \<in> set found \<longleftrightarrow>
       (\<exists>v. (ustr ''device_id'', v) \<in> set ?a \<and> truthy v)
       \<and> ((\<exists>n. map_of ?a (ustr ''name'') = Some n \<and> is_full_name ?U (VStr (py_str n)))
          \<or> (\<exists>e. map_of ?a (ustr ''email'') = Some e
                  \<and> re_match_anchored email_pattern (py_str e)))"
    by blast
  from a(2) ea have "ustr ''device_id'' \<in> set found"
    by (simp add: ustr_eq_iff ustr_Nil_iff del: is_full_name.simps)
  with a(1) have first:
    "\<exists>found. detect_combinatorial_pii ?U ?a = Inr (2 \<le> length found, found)
      \<and> ustr ''device_id'' \<in> set found"
    by blast
  from c3 [of ?b] obtain found' where b:
    "detect_combinatorial_pii ?U ?b = Inr (2 \<le> length found', found')"
    "ustr ''device_id'' \<in> set found' \<longleftrightarrow>
       (\<exists>v. (ustr ''device_id'', v) \<in> set ?b \<and> truthy v)
       \<and> ((\<exists>n. map_of ?b (ustr ''name'') = Some n \<and> is_full_name ?U (VStr (py_str n)))
          \<or> (\<exists>e. map_of ?b (ustr ''email'') = Some e
                  \<and> re_match_anchored email_pattern (py_str e)))"
    by blast
  from b(2) nb have "ustr ''device_id'' \<notin> set found'"
    by (simp add: ustr_eq_iff ustr_Nil_iff del: is_full_name.simps)
  with b(1) have second:
    "\<exists>found. detect_combinatorial_pii ?U ?b = Inr (2 \<le> length found, found)
      \<and> ustr ''device_id'' \<notin> set found"
    by blast
  from c3 [of ?c] obtain found'' where c:
    "detect_combinatorial_pii ?U ?c = Inr (2 \<le> length found'', found'')"
    "ustr ''device_id'' \<in> set found'' \<longleftrightarrow>
       (\<exists>v. (ustr ''device_id'', v) \<in> set ?c \<and> truthy v)
       \<and> ((\<exists>n. map_of ?c (ustr ''name'') = Some n \<and> is_full_name ?U (VStr (py_str n)))
          \<or> (\<exists>e. map_of ?c (ustr ''email'') = Some e
                  \<and> re_match_anchored email_pattern (py_str e)))"
    by blast
  from c(2) nc have "ustr ''device_id'' \<in> set found''"
    by (simp add: ustr_eq_iff ustr_Nil_iff del: is_full_name.simps)
  with c(1) have third:
    "\<exists>found. detect_combinatorial_pii ?U ?c = Inr (2 \<le> length found, found)
      \<and> ustr ''device_id'' \<in> set found"
    by blast
  from c3 [of ?a] wf_sample_ucd have fourth:
    "detect_combinatorial_pii ?U
       [(ustr ''name'', VStr (ustr ''Asha Rao'')), (ustr ''device_id'', VStr (ustr ''abc123''))]
     = Inr (True, [ustr ''name'', ustr ''device_id''])"
    by blast
  from wf_sample_ucd first second third fourth show ?thesis by simp
qed

subsection \<open>Nothing raises\<close>

lemma standalone_loop_total:
  "\<exists>out flag. standalone_loop U items red pii = Inr (out, flag)"
proof (induction items arbitrary: red pii)
  case Nil
  then show ?case by simp
next
  case (Cons item items)
  obtain k v where item: "item = (k, v)" by (cases item)
  obtain m where m: "mask_value U k (py_str v) = Inr m"
    using mask_value_total by blast
  show ?case
    unfolding item using Cons.IH m by simp
qed

lemma mask_found_total: "\<exists>out. mask_found U record fs red = Inr out"
proof (induction fs arbitrary: red)
  case Nil
  then show ?case by simp
next
  case (Cons f fs)
  show ?case
  proof (cases "map_of record f")
    case None
    with Cons.IH show ?thesis by (simp add: in_and_Inr)
  next
    case (Some v)
    obtain m where m: "mask_value U f (py_str v) = Inr m"
      using mask_value_total by blast
    from Some m Cons.IH show ?thesis
      by (simp add: in_and_Inr dict_index_def)
  qed
qed

lemma process_record_never_raises: "\<exists>out flag. process_record U record = Inr (out, flag)"
proof -
  obtain red pii where s: "standalone_loop U record [] False = Inr (red, pii)"
    using standalone_loop_total by blast
  obtain out where m: "mask_found U record (found_fields U record) red = Inr out"
    using mask_found_total by blast
  show ?thesis
    using s m by (auto simp: process_record_def detect_found_fields)
qed

lemma x_not_digit: "wf_ucd U \<Longrightarrow> \<not> uc_digit U 0x58"
  by (simp add: wf_digit_ascii ascii_digits_def ustr_def)

lemma x_not_space: "\<not> is_space 0x58"
  by (simp add: is_space_def whitespace_def)

lemma remask_phone:
  assumes wf: "wf_ucd U" and key: "key = ustr ''phone'' \<or> key = ustr ''contact''"
    and len: "length v = 10" and dig: "list_all (uc_digit U) v"
  shows "mask_value U key (take 2 v @ ustr ''XXXXXX'' @ drop 8 v) = Inr generic_mask"
proof -
  let ?m = "take 2 v @ ustr ''XXXXXX'' @ drop 8 v"
  have xs: "ustr ''XXXXXX'' = [0x58, 0x58, 0x58, 0x58, 0x58, 0x58]"
    by (simp add: ustr_def)
  from dig have "list_all (\<lambda>c. \<not> is_space c) v"
    using wf_digit_not_space [OF wf] by (auto simp: list_all_iff)
  then have "list_all (\<lambda>c. \<not> is_space c) ?m"
    using x_not_space by (auto simp: list_all_iff xs dest: in_set_takeD in_set_dropD)
  then have strip: "py_strip ?m = ?m"
    by (rule py_strip_no_space)
  have nd: "\<not> py_isdigit U ?m"
    using x_not_digit [OF wf] by (simp add: py_isdigit_def xs)
  have ne: "?m \<noteq> []" by (simp add: xs)
  from key show ?thesis
    unfolding mask_value_def Let_def strip
    using nd ne
    by (auto simp: mask_phone_def mask_aadhar_def mask_email_def mask_name_def
        mask_address_def mask_upi_def mask_passport_def ustr_eq_iff)
qed

lemma not_address_Nil: "\<not> is_physical_address U (VStr [])"
  by (simp add: has_number_def plus_def has_pincode_def pincode_at_def)

lemma falsy_not_qualifies: "\<not> truthy v \<Longrightarrow> \<not> qualifies U record (k, v)"
  by (simp add: qualifies_def)

lemma all_falsy_found_fields:
  "list_all (\<lambda>(k, v). \<not> truthy v) record \<Longrightarrow> found_fields U record = []"
  by (auto simp: found_fields_def filter_empty_conv list_all_iff qualifies_def)

lemma all_falsy_no_standalone:
  "list_all (\<lambda>(k, v). \<not> truthy v) record \<Longrightarrow> \<not> has_standalone U record"
  by (auto simp: has_standalone_def list_all_iff list_ex_iff)

text \<open>
  Claim C9. The core functions are total. \<open>is_standalone_pii\<close>, \<open>is_full_name\<close> and
  \<open>is_physical_address\<close> contain no operation that can raise (they are functions to
  \<open>bool\<close>); for \<open>mask_value\<close>, \<open>detect_combinatorial_pii\<close> and \<open>process_record\<close>, which
  index strings, lists and dictionaries, the result is never an exception: for every
  field name and string, \<open>mask_value\<close> returns a string. Masking a masked value again
  returns a string too, and for a masked phone number it is the generic mask, as the
  value no longer consists of 10 digits. The empty string is returned unchanged by
  \<open>mask_value\<close>, and an empty or falsy value is no PII signal: it is not standalone
  PII, the two heuristics are false on the empty string and on a value that is no
  string, and a record whose values are all falsy has no qualifying field and comes
  back unchanged with the flag false.
\<close>

theorem C9_total:
  "(\<exists>m. mask_value U key v = Inr m)
   \<and> (\<exists>b found. detect_combinatorial_pii U record = Inr (b, found))
   \<and> (\<exists>out flag. process_record U record = Inr (out, flag))
   \<and> (\<exists>m m'. mask_value U key v = Inr m \<and> mask_value U key m = Inr m')
   \<and> (wf_ucd U \<and> length v = 10 \<and> list_all (uc_digit U) v \<longrightarrow>
        (\<exists>m. mask_value U (ustr ''phone'') v = Inr m
           \<and> mask_value U (ustr ''phone'') m = Inr generic_mask))
   \<and> mask_value U key [] = Inr []
   \<and> (\<not> truthy x \<longrightarrow> \<not> is_standalone_pii U key x)
   \<and> \<not> is_full_name U (VStr []) \<and> \<not> is_physical_address U (VStr [])
   \<and> \<not> is_full_name U VNone \<and> \<not> is_physical_address U VNone
   \<and> (list_all (\<lambda>(k, v). \<not> truthy v) record \<longrightarrow>
        detect_combinatorial_pii U record = Inr (False, [])
        \<and> (distinct (map fst record) \<longrightarrow> process_record U record = Inr (record, False)))"
proof -
  have a: "\<exists>m. mask_value U key v = Inr m"
    by (rule mask_value_total)
  have b: "\<exists>b found. detect_combinatorial_pii U record = Inr (b, found)"
    by (simp add: detect_found_fields)
  have c: "\<exists>out flag. process_record U record = Inr (out, flag)"
    by (rule process_record_never_raises)
  have d: "\<exists>m m'. mask_value U key v = Inr m \<and> mask_value U key m = Inr m'"
    using mask_value_total by blast
  have e: "wf_ucd U \<and> length v = 10 \<and> list_all (uc_digit U) v \<longrightarrow>
        (\<exists>m. mask_value U (ustr ''phone'') v = Inr m
           \<and> mask_value U (ustr ''phone'') m = Inr generic_mask)"
    using mask_value_phone [of U "ustr ''phone''" v] remask_phone [of U "ustr ''phone''" v]
    by simp
  have f: "mask_value U key [] = Inr []"
    by (simp add: mask_value_def)
  have g: "\<not> truthy x \<longrightarrow> \<not> is_standalone_pii U key x"
    by (simp add: is_standalone_pii_def)
  have h: "\<not> is_full_name U (VStr [])" "\<not> is_physical_address U (VStr [])"
    "\<not> is_full_name U VNone" "\<not> is_physical_address U VNone"
    using not_address_Nil by (simp_all add: py_strip_Nil py_split_def)
  have i: "list_all (\<lambda>(k, v). \<not> truthy v) record \<longrightarrow>
        detect_combinatorial_pii U record = Inr (False, [])
        \<and> (distinct (map fst record) \<longrightarrow> process_record U record = Inr (record, False))"
    using all_falsy_found_fields [of "record" U] all_falsy_no_standalone [of "record" U]
      process_record_none [of "record" U]
    by (auto simp: detect_found_fields)
  from a b c d e f g h i show ?thesis
    by (intro conjI)
qed

theorem C9_total_witness:
  "wf_ucd sample_ucd \<and> length (ustr ''9876543210'') = 10
   \<and> list_all (uc_digit sample_ucd) (ustr ''9876543210'')
   \<and> mask_value sample_ucd (ustr ''phone'') (ustr ''9876543210'') = Inr (ustr ''98XXXXXX10'')
   \<and> mask_value sample_ucd (ustr ''phone'') (ustr ''98XXXXXX10'') = Inr generic_mask
   \<and> \<not> truthy (VInt 0) \<and> \<not> is_standalone_pii sample_ucd (ustr ''phone'') (VInt 0)
   \<and> list_all (\<lambda>(k, v). \<not> truthy v) [(ustr ''name'', VStr []), (ustr ''phone'', VNone)]
   \<and> distinct (map fst [(ustr ''name'', VStr []), (ustr ''phone'', VNone)])
   \<and> detect_combinatorial_pii sample_ucd [(ustr ''name'', VStr []), (ustr ''phone'', VNone)]
       = Inr (False, [])
   \<and> process_record sample_ucd [(ustr ''name'', VStr []), (ustr ''phone'', VNone)]
       = Inr ([(ustr ''name'', VStr []), (ustr ''phone'', VNone)], False)"
proof -
  let ?U = sample_ucd
  let ?p = "ustr ''9876543210''"
  let ?r = "[(ustr ''name'', VStr []), (ustr ''phone'', VNone)]"
  have d10: "length ?p = 10" "list_all (uc_digit ?U) ?p"
    by (simp_all add: sample_ucd_def ascii_digits_def ustr_def)
  have m1: "mask_value ?U (ustr ''phone'') ?p = Inr (ustr ''98XXXXXX10'')"
    using mask_value_phone [OF wf_sample_ucd _ d10, of "ustr ''phone''"]
    by (simp add: ustr_def)
  from C9_total [of ?U "ustr ''phone''" ?p ?r "VInt 0"] wf_sample_ucd d10
  obtain m where "mask_value ?U (ustr ''phone'') ?p = Inr m"
    "mask_value ?U (ustr ''phone'') m = Inr generic_mask"
    by blast
  with m1 have m2: "mask_value ?U (ustr ''phone'') (ustr ''98XXXXXX10'') = Inr generic_mask"
    by simp
  have falsy: "list_all (\<lambda>(k, v). \<not> truthy v) ?r" and dist: "distinct (map fst ?r)"
    by (simp_all add: ustr_eq_iff)
  from C9_total [of ?U "ustr ''phone''" ?p ?r "VInt 0"] falsy dist
  have r: "detect_combinatorial_pii ?U ?r = Inr (False, [])"
    "process_record ?U ?r = Inr (?r, False)"
    by blast+
  from C9_total [of ?U "ustr ''phone''" ?p ?r "VInt 0"]
  have z: "\<not> is_standalone_pii ?U (ustr ''phone'') (VInt 0)"
    by simp
  from wf_sample_ucd d10 m1 m2 z falsy dist r show ?thesis
    by simp
qed

subsection \<open>A name with a device identifier and a network address\<close>

lemma py_strip_hd: "py_strip s \<noteq> [] \<Longrightarrow> \<not> is_space (hd (py_strip s))"
proof -
  let ?t = "dropWhile is_space s"
  let ?u = "dropWhile is_space (rev ?t)"
  assume ne: "py_strip s \<noteq> []"
  then have u: "?u \<noteq> []" by (simp add: py_strip_def)
  have t: "?t \<noteq> []"
  proof
    assume "?t = []"
    then have "?u = []" by (simp only: rev.simps dropWhile.simps)
    with u show False by blast
  qed
  have "hd (py_strip s) = last ?u"
    using u by (simp add: py_strip_def hd_rev)
  also have "\<dots> = last (rev ?t)"
  proof -
    have "rev ?t = takeWhile is_space (rev ?t) @ ?u" by simp
    then have "last (rev ?t) = last (takeWhile is_space (rev ?t) @ ?u)" by simp
    also have "\<dots> = last ?u" using u by (rule last_appendR)
    finally show ?thesis by simp
  qed
  also have "\<dots> = hd ?t"
    using t by (simp add: last_rev)
  finally have "hd (py_strip s) = hd ?t" .
  moreover from t have "\<not> is_space (hd ?t)" by (rule hd_dropWhile)
  ultimately show ?thesis by simp
qed

lemma py_strip_idem: "py_strip (py_strip s) = py_strip s"
proof (cases "py_strip s = []")
  case True
  then show ?thesis by (simp add: py_strip_Nil)
next
  case False
  then show ?thesis
    using py_strip_hd [OF False] py_strip_last [OF False] by (intro py_strip_id)
qed

lemma is_full_name_strip: "is_full_name U (VStr (py_strip s)) = is_full_name U (VStr s)"
  by (simp add: py_strip_idem)

lemma str_nat_nonempty: "str_nat n \<noteq> []"
  by (subst str_nat.simps) simp

lemma py_str_nonempty: "truthy v \<Longrightarrow> py_str v \<noteq> []"
  by (cases v) (auto simp: ustr_def str_int_def str_nat_nonempty)

lemma mask_value_generic:
  assumes "k = ustr ''device_id'' \<or> k = ustr ''ip_address''" "v \<noteq> []"
  shows "mask_value U k v = Inr generic_mask"
  using assms
  by (auto simp: mask_value_def Let_def mask_phone_def mask_aadhar_def mask_email_def
      mask_name_def mask_address_def mask_upi_def mask_passport_def ustr_eq_iff)

lemma masked_generic:
  assumes "k = ustr ''device_id'' \<or> k = ustr ''ip_address''" "truthy v"
  shows "masked U k v = VStr generic_mask"
  using mask_value_generic [OF assms(1) py_str_nonempty [OF assms(2)]]
  by (simp add: masked_def)

lemma found_fields_subset:
  "set (found_fields U record)
     \<subseteq> {ustr ''name'', ustr ''email'', ustr ''address'', ustr ''device_id'', ustr ''ip_address''}"
  by (auto simp: found_fields_def qualifies_def)

lemma distinct_found_fields:
  "distinct (map fst record) \<Longrightarrow> distinct (found_fields U record)"
  unfolding found_fields_def by (rule distinct_map_filter)

lemma name_device_ip_found:
  assumes "map_of record (ustr ''name'') = Some n" "is_full_name U (VStr (py_str n))"
    "map_of record (ustr ''device_id'') = Some d" "truthy d"
    "map_of record (ustr ''ip_address'') = Some i" "truthy i"
  shows "{ustr ''name'', ustr ''device_id'', ustr ''ip_address''} \<subseteq> set (found_fields U record)"
proof -
  from assms(1,2) have l: "linked U record"
    by (simp add: linked_def del: is_full_name.simps)
  from assms(2) have "qualifies U record (ustr ''name'', n)"
    using full_name_truthy [OF assms(2)]
    by (simp add: qualifies_def is_full_name_strip del: is_full_name.simps)
  with assms(1) have a: "ustr ''name'' \<in> set (found_fields U record)"
    by (intro found_fields_I [of _ n]) (auto dest: map_of_SomeD)
  from assms(3,4) l have b: "ustr ''device_id'' \<in> set (found_fields U record)"
    by (subst found_device_iff) (auto dest: map_of_SomeD)
  from assms(5,6) l have c: "ustr ''ip_address'' \<in> set (found_fields U record)"
    by (subst found_device_iff) (auto dest: map_of_SomeD)
  from a b c show ?thesis by simp
qed

lemma three_names:
  "card {ustr ''name'', ustr ''device_id'', ustr ''ip_address''} = 3"
  by (simp add: ustr_eq_iff)

text \<open>
  Claim C4 says that a record with non-empty \<^verbatim>\<open>device_id\<close> and \<^verbatim>\<open>ip_address\<close>
  fields, a full-name-shaped \<^verbatim>\<open>name\<close> and no standalone PII yields exactly the 3
  qualifying names \<^verbatim>\<open>name\<close>, \<^verbatim>\<open>device_id\<close>, \<^verbatim>\<open>ip_address\<close>. A record that also has
  a qualifying \<^verbatim>\<open>email\<close> (or \<^verbatim>\<open>address\<close>) meets the conditions and yields 4 names.
\<close>

theorem C4_counterexample:
  "distinct (map fst
      [(ustr ''name'', VStr (ustr ''Asha Rao'')), (ustr ''email'', VStr (ustr ''asha@example.com'')),
       (ustr ''device_id'', VStr (ustr ''abc123'')), (ustr ''ip_address'', VStr (ustr ''10.0.0.1''))])
   \<and> \<not> has_standalone sample_ucd
      [(ustr ''name'', VStr (ustr ''Asha Rao'')), (ustr ''email'', VStr (ustr ''asha@example.com'')),
       (ustr ''device_id'', VStr (ustr ''abc123'')), (ustr ''ip_address'', VStr (ustr ''10.0.0.1''))]
   \<and> is_full_name sample_ucd (VStr (ustr ''Asha Rao''))
   \<and> truthy (VStr (ustr ''abc123'')) \<and> truthy (VStr (ustr ''10.0.0.1''))
   \<and> detect_combinatorial_pii sample_ucd
      [(ustr ''name'', VStr (ustr ''Asha Rao'')), (ustr ''email'', VStr (ustr ''asha@example.com'')),
       (ustr ''device_id'', VStr (ustr ''abc123'')), (ustr ''ip_address'', VStr (ustr ''10.0.0.1''))]
     = Inr (True, [ustr ''name'', ustr ''email'', ustr ''device_id'', ustr ''ip_address''])
   \<and> set [ustr ''name'', ustr ''email'', ustr ''device_id'', ustr ''ip_address'']
       \<noteq> {ustr ''name'', ustr ''device_id'', ustr ''ip_address''}"
proof -
  let ?U = sample_ucd
  let ?r = "[(ustr ''name'', VStr (ustr ''Asha Rao'')),
             (ustr ''email'', VStr (ustr ''asha@example.com'')),
             (ustr ''device_id'', VStr (ustr ''abc123'')),
             (ustr ''ip_address'', VStr (ustr ''10.0.0.1''))]"
  have d: "distinct (map fst ?r)" by (simp add: ustr_eq_iff)
  have s: "\<not> has_standalone ?U ?r"
    by (simp add: has_standalone_def is_standalone_pii_def ustr_eq_iff Let_def)
  have n: "is_full_name ?U (VStr (ustr ''Asha Rao''))"
    by (rule full_name_asha [OF wf_sample_ucd])
  have t: "truthy (VStr (ustr ''abc123''))" "truthy (VStr (ustr ''10.0.0.1''))"
    by (simp_all add: ustr_Nil_iff)
  have f: "detect_combinatorial_pii ?U ?r
      = Inr (True, [ustr ''name'', ustr ''email'', ustr ''device_id'', ustr ''ip_address''])"
    using n email_example_asha
    by (simp add: detect_found_fields found_fields_def qualifies_def linked_def ustr_eq_iff
        ustr_Nil_iff strip_asha strip_email_asha del: is_full_name.simps)
  have "ustr ''email'' \<in> set [ustr ''name'', ustr ''email'', ustr ''device_id'', ustr ''ip_address'']"
    by simp
  moreover have "ustr ''email'' \<notin> {ustr ''name'', ustr ''device_id'', ustr ''ip_address''}"
    by (simp add: ustr_eq_iff)
  ultimately have ne:
    "set [ustr ''name'', ustr ''email'', ustr ''device_id'', ustr ''ip_address'']
       \<noteq> {ustr ''name'', ustr ''device_id'', ustr ''ip_address''}"
    by metis
  from d s n t f ne show ?thesis by (intro conjI)
qed

text \<open>
  Claim C4, amended. For every record (a dictionary: its keys are distinct) with no
  standalone PII, a \<^verbatim>\<open>name\<close> field whose value is full-name-shaped and non-empty
  \<^verbatim>\<open>device_id\<close> and \<^verbatim>\<open>ip_address\<close> fields, \<open>detect_combinatorial_pii\<close> returns true
  and reports each field name once, \<^verbatim>\<open>name\<close>, \<^verbatim>\<open>device_id\<close> and \<^verbatim>\<open>ip_address\<close> among
  them: these are exactly the 3 reported names when neither \<^verbatim>\<open>email\<close> nor \<^verbatim>\<open>address\<close>
  is reported. \<open>process_record\<close> sets the flag and masks all three: the name by its
  mask, the two identifiers by the generic mask.
\<close>

theorem C4_name_device_ip:
  assumes "distinct (map fst record)" "\<not> has_standalone U record"
    "map_of record (ustr ''name'') = Some n" "is_full_name U (VStr (py_str n))"
    "map_of record (ustr ''device_id'') = Some d" "truthy d"
    "map_of record (ustr ''ip_address'') = Some i" "truthy i"
  shows "\<exists>found out m.
     detect_combinatorial_pii U record = Inr (True, found)
     \<and> distinct found
     \<and> {ustr ''name'', ustr ''device_id'', ustr ''ip_address''} \<subseteq> set found
     \<and> (ustr ''email'' \<notin> set found \<and> ustr ''address'' \<notin> set found \<longrightarrow>
          set found = {ustr ''name'', ustr ''device_id'', ustr ''ip_address''}
          \<and> length found = 3)
     \<and> process_record U record = Inr (out, True)
     \<and> map fst out = map fst record
     \<and> mask_value U (ustr ''name'') (py_str n) = Inr m
     \<and> map_of out (ustr ''name'') = Some (VStr m)
     \<and> map_of out (ustr ''device_id'') = Some (VStr generic_mask)
     \<and> map_of out (ustr ''ip_address'') = Some (VStr generic_mask)"
proof -
  let ?f = "found_fields U record"
  let ?three = "{ustr ''name'', ustr ''device_id'', ustr ''ip_address''}"
  have sub: "?three \<subseteq> set ?f"
    using assms(3-8) by (rule name_device_ip_found)
  have dist: "distinct ?f"
    using assms(1) by (rule distinct_found_fields)
  have "card ?three \<le> card (set ?f)"
    using sub by (intro card_mono) simp_all
  then have len: "3 \<le> length ?f"
    using dist by (simp add: three_names distinct_card)
  then have det: "detect_combinatorial_pii U record = Inr (True, ?f)"
    by (simp add: detect_found_fields)
  have exact: "set ?f = ?three \<and> length ?f = 3"
    if "ustr ''email'' \<notin> set ?f \<and> ustr ''address'' \<notin> set ?f"
  proof -
    from that found_fields_subset [of U "record"] sub have eq: "set ?f = ?three"
      by auto
    with dist have "length ?f = card ?three"
      by (simp add: distinct_card [symmetric])
    with eq show ?thesis by (simp add: three_names)
  qed
  from len have two: "2 \<le> length ?f" by simp
  from process_record_comb [OF assms(1,2) two] obtain out where out:
    "process_record U record = Inr (out, True)" "map fst out = map fst record"
    "\<forall>k. map_of out k =
        (if k \<in> set ?f then Some (masked U k (the (map_of record k))) else map_of record k)"
    by blast
  obtain m where m: "mask_value U (ustr ''name'') (py_str n) = Inr m"
    "masked U (ustr ''name'') n = VStr m"
    using masked_ex by blast
  from out(3) sub assms(3) m(2) have o1: "map_of out (ustr ''name'') = Some (VStr m)"
    by simp
  from out(3) sub assms(5,6) have o2: "map_of out (ustr ''device_id'') = Some (VStr generic_mask)"
    by (simp add: masked_generic)
  from out(3) sub assms(7,8) have o3: "map_of out (ustr ''ip_address'') = Some (VStr generic_mask)"
    by (simp add: masked_generic)
  from det dist sub exact out(1,2) m(1) o1 o2 o3 show ?thesis
    by blast
qed

theorem C4_name_device_ip_witness:
  "distinct (map fst
      [(ustr ''name'', VStr (ustr ''Asha Rao'')), (ustr ''device_id'', VStr (ustr ''abc123'')),
       (ustr ''ip_address'', VStr (ustr ''10.0.0.1''))])
   \<and> \<not> has_standalone sample_ucd
      [(ustr ''name'', VStr (ustr ''Asha Rao'')), (ustr ''device_id'', VStr (ustr ''abc123'')),
       (ustr ''ip_address'', VStr (ustr ''10.0.0.1''))]
   \<and> is_full_name sample_ucd (VStr (py_str (VStr (ustr ''Asha Rao''))))
   \<and> truthy (VStr (ustr ''abc123'')) \<and> truthy (VStr (ustr ''10.0.0.1''))
   \<and> (\<exists>found out.
        detect_combinatorial_pii sample_ucd
          [(ustr ''name'', VStr (ustr ''Asha Rao'')), (ustr ''device_id'', VStr (ustr ''abc123'')),
           (ustr ''ip_address'', VStr (ustr ''10.0.0.1''))] = Inr (True, found)
        \<and> {ustr ''name'', ustr ''device_id'', ustr ''ip_address''} \<subseteq> set found
        \<and> process_record sample_ucd
          [(ustr ''name'', VStr (ustr ''Asha Rao'')), (ustr ''device_id'', VStr (ustr ''abc123'')),
           (ustr ''ip_address'', VStr (ustr ''10.0.0.1''))] = Inr (out, True)
        \<and> map_of out (ustr ''device_id'') = Some (VStr generic_mask)
        \<and> map_of out (ustr ''ip_address'') = Some (VStr generic_mask))"
proof -
  let ?U = sample_ucd
  let ?r = "[(ustr ''name'', VStr (ustr ''Asha Rao'')),
             (ustr ''device_id'', VStr (ustr ''abc123'')),
             (ustr ''ip_address'', VStr (ustr ''10.0.0.1''))]"
  have d: "distinct (map fst ?r)" by (simp add: ustr_eq_iff)
  have s: "\<not> has_standalone ?U ?r"
    by (simp add: has_standalone_def is_standalone_pii_def ustr_eq_iff Let_def)
  have n: "is_full_name ?U (VStr (py_str (VStr (ustr ''Asha Rao''))))"
    using full_name_asha [OF wf_sample_ucd] by simp
  have t: "truthy (VStr (ustr ''abc123''))" "truthy (VStr (ustr ''10.0.0.1''))"
    by (simp_all add: ustr_Nil_iff)
  have m1: "map_of ?r (ustr ''name'') = Some (VStr (ustr ''Asha Rao''))"
    and m2: "map_of ?r (ustr ''device_id'') = Some (VStr (ustr ''abc123''))"
    and m3: "map_of ?r (ustr ''ip_address'') = Some (VStr (ustr ''10.0.0.1''))"
    by (simp_all add: ustr_eq_iff)
  from C4_name_device_ip [OF d s m1 n m2 t(1) m3 t(2)]
  have "\<exists>found out.
        detect_combinatorial_pii ?U ?r = Inr (True, found)
        \<and> {ustr ''name'', ustr ''device_id'', ustr ''ip_address''} \<subseteq> set found
        \<and> process_record ?U ?r = Inr (out, True)
        \<and> map_of out (ustr ''device_id'') = Some (VStr generic_mask)
        \<and> map_of out (ustr ''ip_address'') = Some (VStr generic_mask)"
    by blast
  with d s n t show ?thesis by (intro conjI)
qed

subsection \<open>Split\<close>

lemma split_tokens:
  assumes "list_all (\<lambda>c. \<not> is_space c) cur"
  shows "\<forall>t\<in>set (split_ws_aux cur s). t \<noteq> [] \<and> list_all (\<lambda>c. \<not> is_space c) t"
  using assms
proof (induction s arbitrary: cur)
  case Nil
  then show ?case by simp
next
  case (Cons a s)
  show ?case
  proof (cases "is_space a")
    case True
    from Cons.IH [of "[]"]
    have "\<forall>t\<in>set (split_ws_aux [] s). t \<noteq> [] \<and> list_all (\<lambda>c. \<not> is_space c) t"
      by simp
    with True Cons.prems show ?thesis by auto
  next
    case False
    with Cons.prems have "list_all (\<lambda>c. \<not> is_space c) (cur @ [a])" by simp
    from Cons.IH [OF this] False show ?thesis by simp
  qed
qed

lemma py_split_tokens:
  "t \<in> set (py_split s) \<Longrightarrow> t \<noteq> [] \<and> list_all (\<lambda>c. \<not> is_space c) t"
  using split_tokens [of "[]" s] by (simp add: py_split_def)

lemma split_leading: "split_ws_aux [] (dropWhile is_space s) = split_ws_aux [] s"
  by (induction s) auto

lemma split_spaces:
  "list_all is_space ws \<Longrightarrow> split_ws_aux cur ws = (if cur = [] then [] else [cur])"
  by (induction ws arbitrary: cur) auto

lemma split_trailing:
  "list_all is_space ws \<Longrightarrow> split_ws_aux cur (s @ ws) = split_ws_aux cur s"
  by (induction s arbitrary: cur) (auto simp: split_spaces)

lemma split_no_space_prefix:
  "list_all (\<lambda>c. \<not> is_space c) a \<Longrightarrow> split_ws_aux cur (a @ rest) = split_ws_aux (cur @ a) rest"
  by (induction a arbitrary: cur) auto

lemma py_split_strip: "py_split (py_strip s) = py_split s"
proof -
  let ?t = "dropWhile is_space s"
  let ?ws = "rev (takeWhile is_space (rev ?t))"
  have "py_strip s @ ?ws
          = rev (takeWhile is_space (rev ?t) @ dropWhile is_space (rev ?t))"
    by (simp only: py_strip_def rev_append)
  also have "\<dots> = rev (rev ?t)"
    by (simp only: takeWhile_dropWhile_id)
  also have "\<dots> = ?t"
    by (simp only: rev_rev_ident)
  finally have t: "?t = py_strip s @ ?ws"
    by (rule sym)
  have ws: "list_all is_space ?ws"
    by (auto simp: list_all_iff dest: set_takeWhileD)
  have "py_split s = split_ws_aux [] ?t"
    by (simp add: py_split_def split_leading)
  also have "\<dots> = split_ws_aux [] (py_strip s @ ?ws)"
    using t by simp
  also have "\<dots> = py_split (py_strip s)"
    using ws by (simp add: split_trailing py_split_def)
  finally show ?thesis by simp
qed

lemma py_split_two:
  assumes "a \<noteq> []" "b \<noteq> []" "list_all (\<lambda>c. \<not> is_space c) a" "list_all (\<lambda>c. \<not> is_space c) b"
  shows "py_split (a @ 0x20 # b) = [a, b]"
proof -
  have sp: "is_space 0x20" by (simp add: is_space_def whitespace_def)
  have "py_split (a @ 0x20 # b) = split_ws_aux a (0x20 # b)"
    using assms(3) by (simp add: py_split_def split_no_space_prefix)
  also have "\<dots> = a # split_ws_aux [] b"
    using assms(1) sp by simp
  also have "split_ws_aux [] b = [b]"
    using assms(2,4) by (simp add: split_one_token)
  finally show ?thesis .
qed

subsection \<open>The mask of a full name\<close>

lemma full_name_parts:
  assumes "is_full_name U (VStr v)"
  shows "2 \<le> length (py_split v) \<and> list_all (name_part_ok U) (py_split v)"
  using assms by (simp add: py_split_strip Let_def split: if_splits)

lemma name_part_hd:
  assumes "name_part_ok U t" "t \<noteq> []"
  shows "uc_alpha U (hd t) \<or> hd t = 0x27 \<or> hd t = 0x2D"
proof -
  from assms(2) have "hd t \<in> set t" by simp
  with assms(1) show ?thesis
    by (auto simp: name_part_ok_def py_isalpha_def py_remove_def list_all_iff)
qed

lemma x_alpha: "wf_ucd U \<Longrightarrow> uc_alpha U 0x58"
  by (simp add: wf_alpha_ascii ascii_uppercase_def ascii_lowercase_def ustr_def)

lemma quote_hyphen_not_alpha: "wf_ucd U \<Longrightarrow> \<not> uc_alpha U 0x27 \<and> \<not> uc_alpha U 0x2D"
  by (simp add: wf_alpha_ascii ascii_uppercase_def ascii_lowercase_def ustr_def)

lemma masked_part_ok:
  assumes "wf_ucd U" "uc_alpha U c \<or> c = 0x27 \<or> c = 0x2D" "xs \<noteq> []" "set xs \<subseteq> {0x58}"
  shows "name_part_ok U (c # xs)"
proof -
  from assms(4) have xs: "list_all (uc_alpha U) xs" "filter (\<lambda>x. x \<noteq> 0x27) xs = xs"
    "filter (\<lambda>x. x \<noteq> 0x2D) xs = xs"
    using x_alpha [OF assms(1)] by (auto simp: list_all_iff filter_id_conv)
  from assms(2) show ?thesis
  proof (elim disjE)
    assume c: "uc_alpha U c"
    with quote_hyphen_not_alpha [OF assms(1)] have "c \<noteq> 0x27" "c \<noteq> 0x2D" by auto
    with c xs show ?thesis
      by (simp add: name_part_ok_def py_isalpha_def py_remove_def)
  next
    assume "c = 0x27"
    with xs assms(3) show ?thesis
      by (simp add: name_part_ok_def py_isalpha_def py_remove_def)
  next
    assume "c = 0x2D"
    with xs assms(3) show ?thesis
      by (simp add: name_part_ok_def py_isalpha_def py_remove_def)
  qed
qed

lemma mask_value_name:
  assumes "2 \<le> length (py_split v)"
  shows "mask_value U (ustr ''name'') v =
           Inr ([hd (hd (py_split v))] @ ustr ''XXX'' @ ustr '' ''
                @ [hd (last (py_split v))] @ ustr ''XXXX'')"
proof -
  let ?parts = "py_split v"
  from assms have ne: "?parts \<noteq> []" by auto
  then have "hd ?parts \<in> set ?parts" "last ?parts \<in> set ?parts" by simp_all
  then have tok: "hd ?parts \<noteq> []" "last ?parts \<noteq> []"
    using py_split_tokens by blast+
  have v: "v \<noteq> []"
    using ne by (auto simp: py_split_def)
  have idx: "py_index ?parts 0 = Inr (hd ?parts)"
    using ne by (simp add: py_index_def hd_conv_nth)
  have name: "mask_name (ustr ''name'') (py_strip v) =
      Some (Inr ([hd (hd ?parts)] @ ustr ''XXX'' @ ustr '' '' @ [hd (last ?parts)] @ ustr ''XXXX''))"
    using assms ne tok
    by (simp add: mask_name_def py_split_strip Let_def idx py_index_last_Inr mask_initial_Inr)
  show ?thesis
    using v name
    by (simp add: mask_value_def Let_def mask_phone_def mask_aadhar_def mask_email_def
        ustr_eq_iff)
qed

lemma full_name_masked:
  assumes wf: "wf_ucd U"
    and c: "uc_alpha U c \<or> c = 0x27 \<or> c = 0x2D" "\<not> is_space c"
    and d: "uc_alpha U d \<or> d = 0x27 \<or> d = 0x2D" "\<not> is_space d"
  shows "is_full_name U (VStr ([c] @ ustr ''XXX'' @ ustr '' '' @ [d] @ ustr ''XXXX''))"
proof -
  let ?a = "c # ustr ''XXX''" and ?b = "d # ustr ''XXXX''"
  have x3: "ustr ''XXX'' = [0x58, 0x58, 0x58]" and x4: "ustr ''XXXX'' = [0x58, 0x58, 0x58, 0x58]"
    and sp: "ustr '' '' = [0x20]"
    by (simp_all add: ustr_def)
  have out: "[c] @ ustr ''XXX'' @ ustr '' '' @ [d] @ ustr ''XXXX'' = ?a @ 0x20 # ?b"
    by (simp add: sp)
  have nsa: "list_all (\<lambda>c. \<not> is_space c) ?a" and nsb: "list_all (\<lambda>c. \<not> is_space c) ?b"
    using c(2) d(2) x_not_space by (simp_all add: x3 x4)
  then have "list_all (\<lambda>c. \<not> is_space c) (?a @ ?b)" by simp
  have strip: "py_strip (?a @ 0x20 # ?b) = ?a @ 0x20 # ?b"
    using c(2) x_not_space by (intro py_strip_id) (simp_all add: x4)
  have split: "py_split (?a @ 0x20 # ?b) = [?a, ?b]"
    using nsa nsb by (intro py_split_two) simp_all
  have ok: "name_part_ok U ?a" "name_part_ok U ?b"
    using masked_part_ok [OF wf c(1), of "ustr ''XXX''"]
      masked_part_ok [OF wf d(1), of "ustr ''XXXX''"]
    by (simp_all add: x3 x4)
  have "is_full_name U (VStr (?a @ 0x20 # ?b))"
    unfolding is_full_name.simps strip split Let_def using ok by simp
  then show ?thesis
    unfolding out .
qed

text \<open>
  Claim C10. For every string \<open>v\<close> for which \<open>is_full_name\<close> holds, \<open>mask_value\<close> on
  the field \<^verbatim>\<open>name\<close> returns the first character of the first token of \<open>v\<close>, then
  \<^verbatim>\<open>XXX\<close>, a space, the first character of the last token and \<^verbatim>\<open>XXXX\<close> (the tokens
  are those of \<^verbatim>\<open>v.split()\<close>, none of them empty), and \<open>is_full_name\<close> holds of that
  output again.
\<close>

theorem C10_name_mask_is_full_name:
  assumes "wf_ucd U" "is_full_name U (VStr v)"
  shows "py_split v \<noteq> [] \<and> hd (py_split v) \<noteq> [] \<and> last (py_split v) \<noteq> []
     \<and> mask_value U (ustr ''name'') v =
         Inr ([hd (hd (py_split v))] @ ustr ''XXX'' @ ustr '' ''
              @ [hd (last (py_split v))] @ ustr ''XXXX'')
     \<and> is_full_name U
         (VStr ([hd (hd (py_split v))] @ ustr ''XXX'' @ ustr '' ''
                @ [hd (last (py_split v))] @ ustr ''XXXX''))"
proof -
  let ?parts = "py_split v"
  from full_name_parts [OF assms(2)]
  have len: "2 \<le> length ?parts" and ok: "list_all (name_part_ok U) ?parts"
    by simp_all
  from len have ne: "?parts \<noteq> []" by auto
  then have mem: "hd ?parts \<in> set ?parts" "last ?parts \<in> set ?parts" by simp_all
  then have tok: "hd ?parts \<noteq> []" "last ?parts \<noteq> []"
    and ns: "list_all (\<lambda>c. \<not> is_space c) (hd ?parts)"
      "list_all (\<lambda>c. \<not> is_space c) (last ?parts)"
    using py_split_tokens by blast+
  from ok mem have pok: "name_part_ok U (hd ?parts)" "name_part_ok U (last ?parts)"
    by (auto simp: list_all_iff)
  have c: "\<not> is_space (hd (hd ?parts))" and d: "\<not> is_space (hd (last ?parts))"
    using tok ns by (auto simp: list_all_iff)
  have full: "is_full_name U
         (VStr ([hd (hd ?parts)] @ ustr ''XXX'' @ ustr '' '' @ [hd (last ?parts)] @ ustr ''XXXX''))"
    using name_part_hd [OF pok(1) tok(1)] c name_part_hd [OF pok(2) tok(2)] d
    by (rule full_name_masked [OF assms(1)])
  from ne tok mask_value_name [OF len] full show ?thesis
    by (intro conjI)
qed

theorem C10_name_mask_is_full_name_witness:
  "wf_ucd sample_ucd \<and> is_full_name sample_ucd (VStr (ustr ''Asha Rao''))
   \<and> mask_value sample_ucd (ustr ''name'') (ustr ''Asha Rao'') = Inr (ustr ''AXXX RXXXX'')
   \<and> is_full_name sample_ucd (VStr (ustr ''AXXX RXXXX''))"
proof -
  let ?U = sample_ucd
  have n: "is_full_name ?U (VStr (ustr ''Asha Rao''))"
    by (rule full_name_asha [OF wf_sample_ucd])
  have split: "py_split (ustr ''Asha Rao'') = [ustr ''Asha'', ustr ''Rao'']"
    by (simp add: py_split_def ustr_def is_space_def whitespace_def)
  have out: "[hd (hd (py_split (ustr ''Asha Rao'')))] @ ustr ''XXX'' @ ustr '' ''
      @ [hd (last (py_split (ustr ''Asha Rao'')))] @ ustr ''XXXX'' = ustr ''AXXX RXXXX''"
    unfolding split by (simp add: ustr_def)
  from C10_name_mask_is_full_name [OF wf_sample_ucd n]
  have "mask_value ?U (ustr ''name'') (ustr ''Asha Rao'') = Inr (ustr ''AXXX RXXXX'')"
    "is_full_name ?U (VStr (ustr ''AXXX RXXXX''))"
    unfolding out by blast+
  with wf_sample_ucd n show ?thesis by (intro conjI)
qed

subsection \<open>Physical addresses\<close>

lemma prefix_Seq_Zero: "\<not> re_match_prefix (Seq Zero r) s"
  by (induction s) auto

lemma prefix_Seq_One_Star: "re_match_prefix (Seq One (Star r)) s"
  by (cases s) auto

lemma prefix_plus_Chars:
  "re_match_prefix (plus (Chars p)) s \<longleftrightarrow> s \<noteq> [] \<and> p (hd s)"
  by (cases s) (auto simp: plus_def prefix_Seq_Zero prefix_Seq_One_Star)

lemma search_plus_Chars: "re_search (plus (Chars p)) s \<longleftrightarrow> (\<exists>c\<in>set s. p c)"
proof (induction s)
  case Nil
  then show ?case by (simp add: plus_def)
next
  case (Cons a s)
  have "re_search (plus (Chars p)) (a # s) \<longleftrightarrow>
          re_match_prefix (plus (Chars p)) (a # s) \<or> re_search (plus (Chars p)) s"
    by simp
  also have "\<dots> \<longleftrightarrow> p a \<or> (\<exists>c\<in>set s. p c)"
    unfolding prefix_plus_Chars Cons by simp
  finally show ?case by simp
qed

lemma has_number_iff: "has_number U s \<longleftrightarrow> (\<exists>c\<in>set s. uc_decimal U c)"
  by (simp add: has_number_def search_plus_Chars)

lemma starts_with_iff: "starts_with sub s \<longleftrightarrow> (\<exists>b. s = sub @ b)"
proof
  assume "starts_with sub s"
  then have "s = sub @ drop (length sub) s"
    by (metis append_take_drop_id starts_with_def)
  then show "\<exists>b. s = sub @ b" ..
next
  assume "\<exists>b. s = sub @ b"
  then show "starts_with sub s"
    by (auto simp: starts_with_def)
qed

lemma py_contains_iff: "py_contains sub s \<longleftrightarrow> (\<exists>a b. s = a @ sub @ b)"
proof (induction s)
  case Nil
  then show ?case by auto
next
  case (Cons c cs)
  have "py_contains sub (c # cs) \<longleftrightarrow> (\<exists>b. c # cs = sub @ b) \<or> (\<exists>a b. cs = a @ sub @ b)"
    by (simp add: starts_with_iff Cons)
  also have "\<dots> \<longleftrightarrow> (\<exists>a b. c # cs = a @ sub @ b)"
  proof
    assume "(\<exists>b. c # cs = sub @ b) \<or> (\<exists>a b. cs = a @ sub @ b)"
    then show "\<exists>a b. c # cs = a @ sub @ b"
    proof
      assume "\<exists>b. c # cs = sub @ b"
      then obtain b where "c # cs = [] @ sub @ b" by auto
      then show ?thesis by blast
    next
      assume "\<exists>a b. cs = a @ sub @ b"
      then obtain a b where "c # cs = (c # a) @ sub @ b" by auto
      then show ?thesis by blast
    qed
  next
    assume "\<exists>a b. c # cs = a @ sub @ b"
    then obtain a b where ab: "c # cs = a @ sub @ b" by blast
    show "(\<exists>b. c # cs = sub @ b) \<or> (\<exists>a b. cs = a @ sub @ b)"
    proof (cases a)
      case Nil
      with ab show ?thesis by auto
    next
      case (Cons x a')
      with ab have "cs = a' @ sub @ b" by simp
      then show ?thesis by blast
    qed
  qed
  finally show ?case .
qed

lemma has_keyword_iff:
  "has_keyword U s \<longleftrightarrow> (\<exists>k\<in>set address_keywords. \<exists>a b. py_lower U s = a @ k @ b)"
  by (simp add: has_keyword_def list_ex_iff py_contains_iff)

lemma decimal_is_word: "uc_decimal U c \<Longrightarrow> is_word U c"
  by (simp add: is_word_def)

lemma pincode_at_iff:
  "pincode_at U pre rest \<longleftrightarrow>
     6 \<le> length rest \<and> list_all (uc_decimal U) (take 6 rest)
     \<and> (pre = [] \<or> \<not> is_word U (last pre))
     \<and> (drop 6 rest = [] \<or> \<not> is_word U (hd (drop 6 rest)))"
proof (cases "6 \<le> length rest \<and> list_all (uc_decimal U) (take 6 rest)")
  case False
  then show ?thesis by (auto simp: pincode_at_def)
next
  case True
  then have ne: "rest \<noteq> []" "take 6 rest \<noteq> []" by auto
  from True ne have "uc_decimal U (hd rest)"
    by (cases rest) (auto simp: take_Suc_conv_app_nth eval_nat_numeral)
  then have w1: "is_word U (hd rest)" by (rule decimal_is_word)
  from True ne have "uc_decimal U (last (take 6 rest))"
    by (metis last_in_set list_all_iff)
  then have w2: "is_word U (last (pre @ take 6 rest))"
    using ne by (simp add: decimal_is_word)
  from True ne w1 w2 show ?thesis
    by (auto simp: pincode_at_def word_boundary_def)
qed

lemma has_pincode_iff:
  "has_pincode U s \<longleftrightarrow>
     (\<exists>pre mid post. s = pre @ mid @ post \<and> length mid = 6 \<and> list_all (uc_decimal U) mid
        \<and> (pre = [] \<or> \<not> is_word U (last pre))
        \<and> (post = [] \<or> \<not> is_word U (hd post)))"
proof
  assume "has_pincode U s"
  then have "\<exists>i\<in>set [0..<Suc (length s)]. pincode_at U (take i s) (drop i s)"
    by (simp only: has_pincode_def list_ex_iff)
  then obtain i where i: "i \<in> set [0..<Suc (length s)]" "pincode_at U (take i s) (drop i s)"
    by blast
  let ?pre = "take i s" and ?mid = "take 6 (drop i s)" and ?post = "drop 6 (drop i s)"
  from i(2) have p: "6 \<le> length (drop i s)" "list_all (uc_decimal U) ?mid"
    "?pre = [] \<or> \<not> is_word U (last ?pre)" "?post = [] \<or> \<not> is_word U (hd ?post)"
    unfolding pincode_at_iff by blast+
  have "s = ?pre @ ?mid @ ?post"
    by (simp only: append_take_drop_id)
  moreover from p(1) have "length ?mid = 6" by simp
  ultimately show "\<exists>pre mid post. s = pre @ mid @ post \<and> length mid = 6
      \<and> list_all (uc_decimal U) mid
      \<and> (pre = [] \<or> \<not> is_word U (last pre)) \<and> (post = [] \<or> \<not> is_word U (hd post))"
    using p(2,3,4) by blast
next
  assume "\<exists>pre mid post. s = pre @ mid @ post \<and> length mid = 6
      \<and> list_all (uc_decimal U) mid
      \<and> (pre = [] \<or> \<not> is_word U (last pre)) \<and> (post = [] \<or> \<not> is_word U (hd post))"
  then obtain pre mid post where s: "s = pre @ mid @ post" and m: "length mid = 6"
    "list_all (uc_decimal U) mid" and b: "pre = [] \<or> \<not> is_word U (last pre)"
    "post = [] \<or> \<not> is_word U (hd post)"
    by blast
  have "pincode_at U (take (length pre) s) (drop (length pre) s)"
    unfolding pincode_at_iff using s m b by simp
  moreover have "length pre \<in> set [0..<Suc (length s)]"
    using s by simp
  ultimately show "has_pincode U s"
    unfolding has_pincode_def list_ex_iff by blast
qed

lemma space_not_word: "wf_ucd U \<Longrightarrow> \<not> is_word U 0x20"
  by (simp add: is_word_def wf_alpha_ascii wf_decimal_ascii wf_digit_ascii wf_numeric_ascii
      ascii_uppercase_def ascii_lowercase_def ascii_digits_def ustr_def)

lemma baker_street_example:
  assumes "wf_ucd U"
  shows "has_number U (ustr ''221B, Baker Street, Near Park, 560001'')"
    "has_comma (ustr ''221B, Baker Street, Near Park, 560001'')"
    "word_count (ustr ''221B, Baker Street, Near Park, 560001'')"
    "has_pincode U (ustr ''221B, Baker Street, Near Park, 560001'')"
    "has_keyword U (ustr ''221B, Baker Street, Near Park, 560001'')"
proof -
  let ?s = "ustr ''221B, Baker Street, Near Park, 560001''"
  have "uc_decimal U 0x32"
    using assms by (simp add: wf_decimal_ascii ascii_digits_def ustr_def)
  moreover have "0x32 \<in> set ?s" by (simp add: ustr_def)
  ultimately show "has_number U ?s"
    unfolding has_number_iff by blast
  show "has_comma ?s"
    by (simp add: has_comma_def ustr_def)
  show "word_count ?s"
    by (simp add: word_count_def py_split_def ustr_def is_space_def whitespace_def)
  have "list_all (\<lambda>c. c \<in> set ascii_digits) (ustr ''560001'')"
    by (simp add: ascii_digits_def ustr_def)
  from ascii_digits_decimal [OF assms this]
  have dec: "list_all (uc_decimal U) (ustr ''560001'')" .
  have split: "?s = ustr ''221B, Baker Street, Near Park, '' @ ustr ''560001'' @ []"
    by (simp add: ustr_def)
  have "last (ustr ''221B, Baker Street, Near Park, '') = 0x20"
    by (simp add: ustr_def)
  with space_not_word [OF assms]
  have pre: "\<not> is_word U (last (ustr ''221B, Baker Street, Near Park, ''))"
    by simp
  have "length (ustr ''560001'') = 6" by (simp add: ustr_def)
  with split dec pre show "has_pincode U ?s"
    unfolding has_pincode_iff by blast
  have "list_all (\<lambda>c. c < 128) ?s"
    by (simp add: ustr_def)
  from wf_lower_ascii [OF assms this]
  have "py_lower U ?s = map ascii_lower ?s"
    by (simp add: py_lower_def)
  also have "\<dots> = ustr ''221b, baker '' @ ustr ''street'' @ ustr '', near park, 560001''"
    by (simp add: ustr_def ascii_lower_def)
  finally have "\<exists>a b. py_lower U ?s = a @ ustr ''street'' @ b" by blast
  moreover have "ustr ''street'' \<in> set address_keywords"
    by (simp add: address_keywords_def)
  ultimately show "has_keyword U ?s"
    unfolding has_keyword_iff by blast
qed

text \<open>
  Claim C8. For every string, \<open>is_physical_address\<close> is true iff the value contains a
  decimal digit, contains a comma and has at least 5 tokens separated by white space,
  or it contains a run of exactly six decimal digits that no word character touches
  (the pattern \<^verbatim>\<open>\b\d{6}\b\<close>) and its lower case contains one of the keywords
  \<^verbatim>\<open>road\<close>, \<^verbatim>\<open>street\<close>, \<^verbatim>\<open>lane\<close>, \<^verbatim>\<open>avenue\<close>, \<^verbatim>\<open>nagar\<close>, \<^verbatim>\<open>colony\<close>, \<^verbatim>\<open>park\<close>.
  On \<^verbatim>\<open>221B, Baker Street, Near Park, 560001\<close> it is true, and each of the two paths
  holds on its own.
\<close>

theorem C8_physical_address:
  "(is_physical_address U (VStr s) \<longleftrightarrow>
      ((\<exists>c\<in>set s. uc_decimal U c) \<and> 0x2C \<in> set s \<and> 5 \<le> length (py_split s))
      \<or> ((\<exists>pre mid post. s = pre @ mid @ post \<and> length mid = 6
             \<and> list_all (uc_decimal U) mid
             \<and> (pre = [] \<or> \<not> is_word U (last pre))
             \<and> (post = [] \<or> \<not> is_word U (hd post)))
          \<and> (\<exists>k\<in>set address_keywords. \<exists>a b. py_lower U s = a @ k @ b)))
   \<and> (wf_ucd U \<longrightarrow>
        is_physical_address U (VStr (ustr ''221B, Baker Street, Near Park, 560001''))
        \<and> has_number U (ustr ''221B, Baker Street, Near Park, 560001'')
        \<and> has_comma (ustr ''221B, Baker Street, Near Park, 560001'')
        \<and> word_count (ustr ''221B, Baker Street, Near Park, 560001'')
        \<and> has_pincode U (ustr ''221B, Baker Street, Near Park, 560001'')
        \<and> has_keyword U (ustr ''221B, Baker Street, Near Park, 560001''))"
proof -
  have general: "is_physical_address U (VStr s) \<longleftrightarrow>
      ((\<exists>c\<in>set s. uc_decimal U c) \<and> 0x2C \<in> set s \<and> 5 \<le> length (py_split s))
      \<or> ((\<exists>pre mid post. s = pre @ mid @ post \<and> length mid = 6
             \<and> list_all (uc_decimal U) mid
             \<and> (pre = [] \<or> \<not> is_word U (last pre))
             \<and> (post = [] \<or> \<not> is_word U (hd post)))
          \<and> (\<exists>k\<in>set address_keywords. \<exists>a b. py_lower U s = a @ k @ b))"
    unfolding is_physical_address.simps has_number_iff has_pincode_iff has_keyword_iff
      has_comma_def word_count_def ..
  have example: "wf_ucd U \<longrightarrow>
        is_physical_address U (VStr (ustr ''221B, Baker Street, Near Park, 560001''))
        \<and> has_number U (ustr ''221B, Baker Street, Near Park, 560001'')
        \<and> has_comma (ustr ''221B, Baker Street, Near Park, 560001'')
        \<and> word_count (ustr ''221B, Baker Street, Near Park, 560001'')
        \<and> has_pincode U (ustr ''221B, Baker Street, Near Park, 560001'')
        \<and> has_keyword U (ustr ''221B, Baker Street, Near Park, 560001'')"
    using baker_street_example [of U] by simp
  from general example show ?thesis ..
qed

theorem C8_physical_address_witness:
  "wf_ucd sample_ucd
   \<and> is_physical_address sample_ucd (VStr (ustr ''221B, Baker Street, Near Park, 560001''))
   \<and> has_pincode sample_ucd (ustr ''221B, Baker Street, Near Park, 560001'')
   \<and> has_keyword sample_ucd (ustr ''221B, Baker Street, Near Park, 560001'')
   \<and> \<not> is_physical_address sample_ucd (VStr (ustr ''Pune''))"
proof -
  let ?U = sample_ucd
  note c8 = C8_physical_address [of ?U]
  from c8 [of "[]"] wf_sample_ucd
  have ex: "is_physical_address ?U (VStr (ustr ''221B, Baker Street, Near Park, 560001''))"
    "has_pincode ?U (ustr ''221B, Baker Street, Near Park, 560001'')"
    "has_keyword ?U (ustr ''221B, Baker Street, Near Park, 560001'')"
    by blast+
  have nodigit: "\<not> (\<exists>c\<in>set (ustr ''Pune''). uc_decimal ?U c)"
    by (simp add: ustr_def sample_ucd_def ascii_digits_def)
  have "\<not> (\<exists>pre mid post. ustr ''Pune'' = pre @ mid @ post \<and> length mid = 6)"
  proof
    assume "\<exists>pre mid post. ustr ''Pune'' = pre @ mid @ post \<and> length mid = 6"
    then obtain pre mid post where "ustr ''Pune'' = pre @ mid @ post" "length mid = 6"
      by blast
    then have "length (ustr ''Pune'') = length pre + 6 + length post"
      by simp
    then show False by (simp add: ustr_def)
  qed
  with nodigit c8 [of "ustr ''Pune''"]
  have "\<not> is_physical_address ?U (VStr (ustr ''Pune''))"
    by blast
  with wf_sample_ucd ex show ?thesis by (intro conjI)
qed

end
